theory Spec2Isabelle
  imports Main
begin

section \<open>Strings and characters\<close>

text \<open>
  JavaScript strings are modelled as \<open>string\<close> (a list of characters). The character
  classes of the regular expressions of the plugin only name ASCII characters; every
  other character is outside all of them.
\<close>

definition isLower :: "char \<Rightarrow> bool" where
  "isLower c = (c \<in> set ''abcdefghijklmnopqrstuvwxyz'')"

definition isUpper :: "char \<Rightarrow> bool" where
  "isUpper c = (c \<in> set ''ABCDEFGHIJKLMNOPQRSTUVWXYZ'')"

definition isDigit :: "char \<Rightarrow> bool" where
  "isDigit c = (c \<in> set ''0123456789'')"

definition idChar :: "char \<Rightarrow> bool" where
  \<comment> \<open>the class \<open>[a-zA-Z0-9-_]\<close>: after the range \<open>0-9\<close> the dash and the underscore are literal\<close>
  "idChar c = (isLower c \<or> isUpper c \<or> isDigit c \<or> c = CHR ''-'' \<or> c = CHR ''_'')"

definition isDash :: "char \<Rightarrow> bool" where
  "isDash c = (c = CHR ''-'')"

definition isSlash :: "char \<Rightarrow> bool" where
  "isSlash c = (c = CHR ''/'')"

fun toLowerCase :: "char \<Rightarrow> char" where
  "toLowerCase c =
     (case map_of (zip ''ABCDEFGHIJKLMNOPQRSTUVWXYZ'' ''abcdefghijklmnopqrstuvwxyz'') c of
        Some l \<Rightarrow> l
      | None \<Rightarrow> c)"

section \<open>Regular expressions\<close>

text \<open>
  The patterns of the plugin are JavaScript regular expressions. They are modelled by a
  backtracking matcher with JavaScript's priorities: an alternative tries its left branch
  first, a greedy star tries one more iteration before it stops, a lazy star stops
  before it tries one more, and an iteration of a star that consumes nothing is refused.
  A matcher state is the character before the position (for \<open>^\<close> and \<open>\b\<close>), the
  rest of the input, and the captured groups; \<open>matches\<close> lists the states after a match
  in the order in which backtracking reaches them, so the head is the match JavaScript takes.
  The flag \<open>ignoreCase\<close> is the \<open>i\<close> flag; \<open>AnyChar\<close> is the dot under the \<open>s\<close> flag.
\<close>

definition isWordChar :: "char \<Rightarrow> bool" where
  \<comment> \<open>\<open>\w\<close>\<close>
  "isWordChar c = (isLower c \<or> isUpper c \<or> isDigit c \<or> c = CHR ''_'')"

definition isSpace :: "char \<Rightarrow> bool" where
  \<comment> \<open>\<open>\s\<close> and the characters \<open>trim\<close> removes, among the characters below U+0100\<close>
  "isSpace c = (c \<in> set [CHR 0x09, CHR 0x0A, CHR 0x0B, CHR 0x0C, CHR 0x0D, CHR 0x20, CHR 0xA0])"

datatype regex =
    Lit string
  | OneOf string
  | NoneOf string
  | Space
  | Word
  | AnyChar
  | Seq regex regex
  | Alt regex regex
  | Star regex
  | LazyStar regex
  | NotAhead regex
  | WordBoundary
  | Bol
  | Eol
  | Group regex

type_synonym mstate = "char option \<times> string \<times> string list"

definition sameChar :: "bool \<Rightarrow> char \<Rightarrow> char \<Rightarrow> bool" where
  "sameChar ignoreCase a b = (if ignoreCase then toLowerCase a = toLowerCase b else a = b)"

definition oneChar :: "(char \<Rightarrow> bool) \<Rightarrow> mstate \<Rightarrow> mstate list" where
  "oneChar P st = (case st of (prev, rest, caps) \<Rightarrow>
     (case rest of [] \<Rightarrow> [] | c # cs \<Rightarrow> if P c then [(Some c, cs, caps)] else []))"

definition remaining :: "mstate \<Rightarrow> nat" where
  "remaining st = length (fst (snd st))"

definition atWordBoundary :: "mstate \<Rightarrow> bool" where
  "atWordBoundary st = (case st of (prev, rest, caps) \<Rightarrow>
     (case prev of None \<Rightarrow> False | Some c \<Rightarrow> isWordChar c) \<noteq>
     (case rest of [] \<Rightarrow> False | c # cs \<Rightarrow> isWordChar c))"

fun matchLit :: "bool \<Rightarrow> string \<Rightarrow> mstate \<Rightarrow> mstate list" where
  "matchLit ic [] st = [st]"
| "matchLit ic (l # ls) (prev, [], caps) = []"
| "matchLit ic (l # ls) (prev, c # cs, caps) =
     (if sameChar ic l c then matchLit ic ls (Some c, cs, caps) else [])"

function (sequential) matches :: "bool \<Rightarrow> regex \<Rightarrow> mstate \<Rightarrow> mstate list" where
  "matches ic (Lit l) st = matchLit ic l st"
| "matches ic (OneOf cs) st = oneChar (\<lambda>c. \<exists>x \<in> set cs. sameChar ic x c) st"
| "matches ic (NoneOf cs) st = oneChar (\<lambda>c. \<not> (\<exists>x \<in> set cs. sameChar ic x c)) st"
| "matches ic Space st = oneChar isSpace st"
| "matches ic Word st = oneChar isWordChar st"
| "matches ic AnyChar st = oneChar (\<lambda>c. True) st"
| "matches ic (Seq a b) st = concat (map (matches ic b) (matches ic a st))"
| "matches ic (Alt a b) st = matches ic a st @ matches ic b st"
| "matches ic (Star a) st =
     concat (map (\<lambda>st'. if remaining st' < remaining st then matches ic (Star a) st' else [])
                 (matches ic a st)) @ [st]"
| "matches ic (LazyStar a) st =
     st # concat (map (\<lambda>st'. if remaining st' < remaining st then matches ic (LazyStar a) st' else [])
                      (matches ic a st))"
| "matches ic (NotAhead a) st = (if matches ic a st = [] then [st] else [])"
| "matches ic WordBoundary st = (if atWordBoundary st then [st] else [])"
| "matches ic Bol st = (if fst st = None then [st] else [])"
| "matches ic Eol st = (if fst (snd st) = [] then [st] else [])"
| "matches ic (Group a) st =
     map (\<lambda>(prev', rest', caps').
            (prev', rest', caps' @ [take (remaining st - length rest') (fst (snd st))]))
         (matches ic a st)"
  by pat_completeness auto
termination
  by (relation "measures [\<lambda>(ic, r, st). size r, \<lambda>(ic, r, st). remaining st]") auto

declare matches.simps(9) [simp del] matches.simps(10) [simp del]

definition firstMatch :: "bool \<Rightarrow> regex \<Rightarrow> char option \<Rightarrow> string \<Rightarrow> mstate option" where
  "firstMatch ic r prev s = (case matches ic r (prev, s, []) of [] \<Rightarrow> None | st # _ \<Rightarrow> Some st)"

text \<open>
  \<open>s.replace(r, repl)\<close> for a pattern with the \<open>g\<close> flag and a replacement string
  without \<open>$\<close>: the matches are looked for from left to right, each search starting where
  the match before ended (one character further after an empty match).
\<close>

function replaceAll :: "bool \<Rightarrow> regex \<Rightarrow> string \<Rightarrow> char option \<Rightarrow> string \<Rightarrow> string" where
  "replaceAll ic r repl prev s =
     (case firstMatch ic r prev s of
        Some (prev', rest', caps) \<Rightarrow>
          if length rest' < length s then repl @ replaceAll ic r repl prev' rest'
          else (case s of [] \<Rightarrow> repl | c # cs \<Rightarrow> repl @ c # replaceAll ic r repl (Some c) cs)
      | None \<Rightarrow>
          (case s of [] \<Rightarrow> [] | c # cs \<Rightarrow> c # replaceAll ic r repl (Some c) cs))"
  by pat_completeness auto
termination
  by (relation "measure (\<lambda>(ic, r, repl, prev, s). length s)") auto

declare replaceAll.simps [simp del]

text \<open>
  \<open>s.match(r)\<close> for a pattern without the \<open>g\<close> flag: the leftmost match, as the list
  of the matched text and the captured groups, or \<open>None\<close> for \<open>null\<close>.
\<close>

fun execFrom :: "bool \<Rightarrow> regex \<Rightarrow> char option \<Rightarrow> string \<Rightarrow> string list option" where
  "execFrom ic r prev s =
     (case firstMatch ic r prev s of
        Some (prev', rest', caps) \<Rightarrow> Some (take (length s - length rest') s # caps)
      | None \<Rightarrow> (case s of [] \<Rightarrow> None | c # cs \<Rightarrow> execFrom ic r (Some c) cs))"

declare execFrom.simps [simp del]

definition Plus :: "regex \<Rightarrow> regex" where
  "Plus a = Seq a (Star a)"

fun seqs :: "regex list \<Rightarrow> regex" where
  "seqs [] = Lit []"
| "seqs [r] = r"
| "seqs (r # rs) = Seq r (seqs rs)"

definition quotes :: string where
  \<comment> \<open>the class \<open>["']\<close>\<close>
  "quotes = [CHR 0x22, CHR 0x27]"

section \<open>Node's \<open>path.basename\<close> (POSIX)\<close>

text \<open>
  \<open>basename(path, suffix)\<close> of Node's \<open>path\<close> module is platform code, not part of the
  plugin. It is modelled on POSIX paths, for a suffix without a slash (the plugin only
  passes \<open>.svg\<close>) and for paths as the plugin has them, the paths of files, which do
  not end with a slash: the last segment is taken, and the suffix is cut when the segment
  ends with it and is longer than it; a path equal to the suffix gives the empty string.
  Trailing slashes are dropped first, as the documentation of Node says.
\<close>

definition stripTrailingSlashes :: "string \<Rightarrow> string" where
  "stripTrailingSlashes p = rev (dropWhile isSlash (rev p))"

definition lastSegment :: "string \<Rightarrow> string" where
  "lastSegment p = rev (takeWhile (\<lambda>c. \<not> isSlash c) (rev (stripTrailingSlashes p)))"

definition endsWith :: "string \<Rightarrow> string \<Rightarrow> bool" where
  "endsWith s suffix = (length suffix \<le> length s \<and> drop (length s - length suffix) s = suffix)"

definition basename :: "string \<Rightarrow> string \<Rightarrow> string" where
  "basename path suffix =
     (if suffix \<noteq> [] \<and> length suffix \<le> length path then
        (if suffix = path then []
         else let b = lastSegment path in
              if length suffix < length b \<and> endsWith b suffix
              then take (length b - length suffix) b
              else b)
      else lastSegment path)"

section \<open>Symbol identifiers\<close>

text \<open>
  \<open>generateSymbolId\<close>:
  \<^verbatim>\<open>
  const fileName = basename(filePath, '.svg');
  const cleanName = fileName
    .replace(/[^a-zA-Z0-9-_]+/g, '-')
    .replace(/^-+|-+$/g, '');
  return prefix ? `${prefix}-${cleanName}` : cleanName;
  \<close>
\<close>

definition idChars :: string where
  "idChars = ''abcdefghijklmnopqrstuvwxyzABCDEFGHIJKLMNOPQRSTUVWXYZ0123456789-_''"

definition invalidRunPattern :: regex where
  "invalidRunPattern = Plus (NoneOf idChars)"

definition edgeDashesPattern :: regex where
  "edgeDashesPattern = Alt (Seq Bol (Plus (Lit ''-''))) (Seq (Plus (Lit ''-'')) Eol)"

definition cleanName :: "string \<Rightarrow> string" where
  "cleanName fileName =
     replaceAll False edgeDashesPattern [] None (replaceAll False invalidRunPattern ''-'' None fileName)"

text \<open>
  The two replacements, written as recursion on the string (\<open>cleanName_eq\<close> below proves
  that they are the same): the first turns every maximal run of characters outside the
  class into one dash; the second removes the dashes at the start and at the end
  (\<open>stripTrailingDashes\<close> is what it does after the start of the string).
\<close>

function replaceInvalidRuns :: "string \<Rightarrow> string" where
  "replaceInvalidRuns [] = []"
| "replaceInvalidRuns (c # cs) =
     (if idChar c then c # replaceInvalidRuns cs
      else CHR ''-'' # replaceInvalidRuns (dropWhile (\<lambda>d. \<not> idChar d) cs))"
  by pat_completeness auto
termination
  by (relation "measure length") (auto simp: length_dropWhile_le less_Suc_eq_le)

definition stripTrailingDashes :: "string \<Rightarrow> string" where
  "stripTrailingDashes s = rev (dropWhile isDash (rev s))"

definition trimDashes :: "string \<Rightarrow> string" where
  "trimDashes s = rev (dropWhile isDash (rev (dropWhile isDash s)))"

definition generateSymbolId :: "string \<Rightarrow> string \<Rightarrow> string" where
  "generateSymbolId filePath prefix =
     (let fileName = basename filePath ''.svg'';
          cleanName = cleanName fileName
      in if prefix \<noteq> [] then prefix @ ''-'' @ cleanName else cleanName)"

text \<open>The identifier as the specification words it: the file name lowercased, then
  sanitized, with the prefix in front.\<close>

definition symbolId_spec :: "string \<Rightarrow> string \<Rightarrow> string" where
  "symbolId_spec filePath prefix =
     (let cleanName = cleanName (map toLowerCase (basename filePath ''.svg''))
      in if prefix \<noteq> [] then prefix @ ''-'' @ cleanName else cleanName)"

section \<open>Tree-shaking filter\<close>

text \<open>
  \<open>filterUsedSvgFiles(allSvgFiles, usedIconIds, idPrefix, verbose)\<close>; \<open>verbose\<close> only
  selects what is logged and is left out.
\<close>

definition filterUsedSvgFiles :: "string list \<Rightarrow> string set \<Rightarrow> string \<Rightarrow> string list" where
  "filterUsedSvgFiles allSvgFiles usedIconIds idPrefix =
     (if usedIconIds = {} then allSvgFiles
      else filter (\<lambda>filePath. generateSymbolId filePath idPrefix \<in> usedIconIds) allSvgFiles)"

section \<open>Symbols and the sprite\<close>

record ParsedSVG =
  viewBox :: string
  content :: string

record options =
  spriteId :: string
  spriteClass :: string
  idPrefix :: string
  svgoOptimize :: bool

text \<open>
  \<open>generateSymbol\<close> escapes the five characters \<open>< > " ' &\<close> of the identifier:
  \<^verbatim>\<open>
  const safeId = id.replace(/[<>"'&]/g, (char) => entities[char] || char);
  return `<symbol id="${safeId}" viewBox="${viewBox}">${content}</symbol>`;
  \<close>
\<close>

definition entity :: "char \<Rightarrow> string" where
  \<open>entity c =
     (if c = CHR ''<'' then ''&lt;''
      else if c = CHR ''>'' then ''&gt;''
      else if c = CHR 0x22 then ''&quot;''
      else if c = CHR 0x27 then ''&#39;''
      else if c = CHR ''&'' then ''&amp;''
      else [c])\<close>

definition safeId :: "string \<Rightarrow> string" where
  "safeId ident = concat (map entity ident)"

definition generateSymbol :: "string \<Rightarrow> string \<Rightarrow> string \<Rightarrow> string" where
  \<open>generateSymbol ident cont vbox =
     ''<symbol id="'' @ safeId ident @ ''" viewBox="'' @ vbox @ ''">'' @ cont @ ''</symbol>''\<close>

fun joinWith :: "string \<Rightarrow> string list \<Rightarrow> string" where
  "joinWith sep [] = []"
| "joinWith sep [x] = x"
| "joinWith sep (x # y # ys) = x @ sep @ joinWith sep (y # ys)"

definition generateSprite :: "string list \<Rightarrow> options \<Rightarrow> string" where
  \<open>generateSprite syms opts =
     (let symbolsHtml =
            (if length syms > 0
             then ''\<newline>  '' @ joinWith ''\<newline>  '' syms @ ''\<newline>''
             else [])
      in ''<svg id="'' @ spriteId opts @ ''" class="'' @ spriteClass opts @
         ''" style="display: none;">'' @ symbolsHtml @ ''</svg>'')\<close>

text \<open>
  The loop of \<open>buildSpriteFromFilesInternal\<close> over the files and the results of parsing
  them (\<open>parsedResults[i]\<close> belongs to \<open>svgFiles[i]\<close>; \<open>None\<close> is the \<open>null\<close> of a file
  that failed to parse). Its three local variables are the state.
\<close>

record build_state =
  symbols :: "string list"
  symbolIds :: "string set"
  duplicates :: "(string \<times> string) list"

definition emptyBuild :: build_state where
  "emptyBuild = \<lparr>symbols = [], symbolIds = {}, duplicates = []\<rparr>"

fun assembleLoop :: "string \<Rightarrow> (string \<times> ParsedSVG option) list \<Rightarrow> build_state \<Rightarrow> build_state" where
  "assembleLoop prefix [] st = st"
| "assembleLoop prefix ((filePath, None) # rest) st = assembleLoop prefix rest st"
| "assembleLoop prefix ((filePath, Some parsed) # rest) st =
     (let symbolId = generateSymbolId filePath prefix in
      if symbolId \<in> symbolIds st
      then assembleLoop prefix rest (st\<lparr>duplicates := duplicates st @ [(symbolId, filePath)]\<rparr>)
      else assembleLoop prefix rest
             (st\<lparr>symbolIds := insert symbolId (symbolIds st),
                 symbols := symbols st @ [generateSymbol symbolId (content parsed) (viewBox parsed)]\<rparr>))"

definition assemble :: "options \<Rightarrow> string list \<Rightarrow> ParsedSVG option list \<Rightarrow> build_state" where
  "assemble opts svgFiles parsedResults =
     assembleLoop (idPrefix opts) (zip svgFiles parsedResults) emptyBuild"

definition buildSpriteFromFiles :: "options \<Rightarrow> string list \<Rightarrow> ParsedSVG option list \<Rightarrow> string" where
  "buildSpriteFromFiles opts svgFiles parsedResults =
     generateSprite (symbols (assemble opts svgFiles parsedResults)) opts"

text \<open>A symbol fragment carries the identifier \<open>ident\<close> when it starts with the opening
  of a \<open>symbol\<close> tag whose \<open>id\<close> attribute is the escaped identifier.\<close>

definition symbolHasId :: "string \<Rightarrow> string \<Rightarrow> bool" where
  \<open>symbolHasId fragment ident =
     (let opening = ''<symbol id="'' @ safeId ident @ ''"''
      in take (length opening) fragment = opening)\<close>

text \<open>The successfully parsed files whose derived identifier is \<open>ident\<close>, in processing
  order.\<close>

definition parsedWithId :: "string \<Rightarrow> string \<Rightarrow> (string \<times> ParsedSVG option) list \<Rightarrow> (string \<times> ParsedSVG) list" where
  "parsedWithId prefix ident entries =
     [(f, p). (f, Some p) \<leftarrow> entries, generateSymbolId f prefix = ident]"

section \<open>Content sanitizer\<close>

text \<open>
  \<open>SECURITY_PATTERNS\<close>, all with the flags \<open>g\<close> and \<open>i\<close>:
  \<^verbatim>\<open>
  script:         /<script\b[^<]*(?:(?!<\/script>)<[^<]*)*<\/script>/gi
  eventHandlers:  /\s+on\w+\s*=\s*["'][^"']*["']/gi
  javascriptUrls: /(?:href|xlink:href)\s*=\s*["']javascript:[^"']*["']/gi
  dataHtmlUrls:   /href\s*=\s*["']data:text\/html[^"']*["']/gi
  foreignObject:  /<foreignObject\b[^>]*>.*?<\/foreignObject>/gis
  \<close>
\<close>

definition scriptPattern :: regex where
  "scriptPattern = seqs [Lit ''<script'', WordBoundary, Star (NoneOf ''<''),
     Star (seqs [NotAhead (Lit ''</script>''), Lit ''<'', Star (NoneOf ''<'')]),
     Lit ''</script>'']"

definition eventHandlersPattern :: regex where
  "eventHandlersPattern = seqs [Plus Space, Lit ''on'', Plus Word, Star Space, Lit ''='', Star Space,
     OneOf quotes, Star (NoneOf quotes), OneOf quotes]"

definition javascriptUrlsPattern :: regex where
  "javascriptUrlsPattern = seqs [Alt (Lit ''href'') (Lit ''xlink:href''), Star Space, Lit ''='',
     Star Space, OneOf quotes, Lit ''javascript:'', Star (NoneOf quotes), OneOf quotes]"

definition dataHtmlUrlsPattern :: regex where
  "dataHtmlUrlsPattern = seqs [Lit ''href'', Star Space, Lit ''='', Star Space,
     OneOf quotes, Lit ''data:text/html'', Star (NoneOf quotes), OneOf quotes]"

definition foreignObjectPattern :: regex where
  "foreignObjectPattern = seqs [Lit ''<foreignObject'', WordBoundary, Star (NoneOf ''>''), Lit ''>'',
     LazyStar AnyChar, Lit ''</foreignObject>'']"

definition sanitizeSVGContent :: "string \<Rightarrow> string" where
  "sanitizeSVGContent cont =
     replaceAll True foreignObjectPattern [] None
       (replaceAll True dataHtmlUrlsPattern [] None
         (replaceAll True javascriptUrlsPattern [] None
           (replaceAll True eventHandlersPattern [] None
             (replaceAll True scriptPattern [] None cont))))"

section \<open>Parser with cache\<close>

text \<open>
  The file system is an input: \<open>fs path\<close> is \<open>None\<close> when \<open>stat\<close> fails, and otherwise
  gives the size, the modification time (as the template string prints the number) and
  the text \<open>readFile\<close> returns (\<open>None\<close> when reading fails). The parse cache is a
  JavaScript \<open>Map\<close>, modelled as an association list in insertion order.
\<close>

record file_stats =
  sizeBytes :: nat
  mtimeMs :: string

record file_entry =
  fstats :: file_stats
  fdata :: "string option"

type_synonym fsys = "string \<Rightarrow> file_entry option"

type_synonym cache = "(string \<times> ParsedSVG) list"

definition cacheSet :: "string \<Rightarrow> ParsedSVG \<Rightarrow> cache \<Rightarrow> cache" where
  "cacheSet k v c =
     (if k \<in> fst ` set c then map (\<lambda>(k', v'). if k' = k then (k', v) else (k', v')) c
      else c @ [(k, v)])"

definition cacheDelete :: "string \<Rightarrow> cache \<Rightarrow> cache" where
  "cacheDelete k c = filter (\<lambda>(k', v'). k' \<noteq> k) c"

definition MAX_CACHE_SIZE :: nat where
  "MAX_CACHE_SIZE = 1000"

definition MAX_FILE_SIZE :: nat where
  "MAX_FILE_SIZE = 5 * 1024 * 1024"

definition trim :: "string \<Rightarrow> string" where
  "trim s = rev (dropWhile isSpace (rev (dropWhile isSpace s)))"

fun includesStr :: "string \<Rightarrow> string \<Rightarrow> bool" where
  "includesStr [] sub = (sub = [])"
| "includesStr (c # cs) sub = (take (length sub) (c # cs) = sub \<or> includesStr cs sub)"

definition viewBoxPattern :: regex where
  "viewBoxPattern = seqs [Lit ''viewBox'', Star Space, Lit ''='', Star Space,
     OneOf quotes, Group (Plus (NoneOf quotes)), OneOf quotes]"

definition svgContentPattern :: regex where
  "svgContentPattern = seqs [Lit ''<svg'', Star (NoneOf ''>''), Lit ''>'',
     Group (LazyStar AnyChar), Lit ''</svg>'']"

definition group1 :: "string list \<Rightarrow> string" where
  "group1 m = (case m of _ # g # _ \<Rightarrow> g | _ \<Rightarrow> [])"

text \<open>
  The body of the \<open>try\<close> block of \<open>parseSVGCachedInternal\<close>, for one attempt: \<open>Inl\<close> is a
  thrown error, \<open>RetryLater\<close> the recursive call after the delay. The optimizer is an
  input: \<open>None\<close> when the \<open>svgo\<close> module cannot be loaded, otherwise its \<open>optimize\<close>
  function with the configuration applied, \<open>None\<close> where it throws.
\<close>

datatype parse_error =
  StatFailed | FileTooLarge | ReadFailed | FileEmpty | NoSvgTag | NoSvgContent

type_synonym optimizer = "(string \<Rightarrow> string option) option"

definition optimizeSVGInternal :: "optimizer \<Rightarrow> string \<Rightarrow> string" where
  "optimizeSVGInternal svgo cont =
     (case svgo of
        None \<Rightarrow> cont
      | Some optimize \<Rightarrow> (case optimize cont of Some data \<Rightarrow> data | None \<Rightarrow> cont))"

datatype outcome = Parsed ParsedSVG cache | RetryLater

definition cacheKey :: "options \<Rightarrow> string \<Rightarrow> file_stats \<Rightarrow> string" where
  "cacheKey opts filePath stats =
     filePath @ '':'' @ mtimeMs stats @ '':'' @ (if svgoOptimize opts then ''1'' else ''0'')"

definition parseTry :: "options \<Rightarrow> optimizer \<Rightarrow> fsys \<Rightarrow> cache \<Rightarrow> string \<Rightarrow> nat \<Rightarrow> parse_error + outcome" where
  \<open>parseTry opts svgo fs cache filePath retryCount =
     (case fs filePath of
        None \<Rightarrow> Inl StatFailed
      | Some file \<Rightarrow>
          if sizeBytes (fstats file) > MAX_FILE_SIZE then Inl FileTooLarge
          else let key = cacheKey opts filePath (fstats file) in
            (case map_of cache key of
               Some cached \<Rightarrow> Inr (Parsed cached cache)
             | None \<Rightarrow>
                 (case fdata file of
                    None \<Rightarrow> Inl ReadFailed
                  | Some cont \<Rightarrow>
                      if trim cont = [] then
                        (if retryCount < 3 then Inr RetryLater else Inl FileEmpty)
                      else if \<not> includesStr cont ''<svg'' then Inl NoSvgTag
                      else
                        let viewBoxMatch = execFrom True viewBoxPattern None cont;
                            vbox = (case viewBoxMatch of Some m \<Rightarrow> group1 m | None \<Rightarrow> ''0 0 24 24'')
                        in (case execFrom True svgContentPattern None cont of
                              None \<Rightarrow> Inl NoSvgContent
                            | Some svgContentMatch \<Rightarrow>
                                let svgContent = sanitizeSVGContent (group1 svgContentMatch);
                                    svgContent' =
                                      (if svgoOptimize opts then
                                         let wrappedSvg = ''<svg viewBox="'' @ vbox @ ''">'' @ svgContent @ ''</svg>'';
                                             optimized = optimizeSVGInternal svgo wrappedSvg
                                         in (case execFrom True svgContentPattern None optimized of
                                               Some optimizedMatch \<Rightarrow> group1 optimizedMatch
                                             | None \<Rightarrow> svgContent)
                                       else svgContent);
                                    result = \<lparr>viewBox = vbox, content = trim svgContent'\<rparr>;
                                    cache' = cacheSet key result cache;
                                    cache'' = (if length cache' > MAX_CACHE_SIZE
                                               then (case cache' of
                                                       [] \<Rightarrow> cache'
                                                     | (firstKey, _) # _ \<Rightarrow>
                                                         if firstKey \<noteq> [] then cacheDelete firstKey cache' else cache')
                                               else cache')
                                in Inr (Parsed result cache'')))))\<close>

text \<open>
  \<open>parseSVGCachedInternal\<close>: the \<open>catch\<close> turns every error into \<open>null\<close>. Each attempt
  sees the file system as it is then: \<open>fs k\<close> is the file system at attempt \<open>k\<close>.
\<close>

function parseSVGCachedInternal ::
  "options \<Rightarrow> optimizer \<Rightarrow> (nat \<Rightarrow> fsys) \<Rightarrow> cache \<Rightarrow> string \<Rightarrow> nat \<Rightarrow> ParsedSVG option \<times> cache" where
  "parseSVGCachedInternal opts svgo fs cache filePath retryCount =
     (case parseTry opts svgo (fs retryCount) cache filePath retryCount of
        Inl err \<Rightarrow> (None, cache)
      | Inr RetryLater \<Rightarrow> parseSVGCachedInternal opts svgo fs cache filePath (retryCount + 1)
      | Inr (Parsed result cache') \<Rightarrow> (Some result, cache'))"
  by pat_completeness auto
termination
  by (relation "measure (\<lambda>(opts, svgo, fs, cache, filePath, retryCount). 3 - retryCount)")
     (auto simp: parseTry_def Let_def split: option.splits if_splits)

declare parseSVGCachedInternal.simps [simp del]


section \<open>Change detector\<close>

text \<open>
  \<open>generateHashFromMtime\<close> starts one \<open>stat\<close> per file and updates the hash in the
  callback of each, so the hash is fed in the order in which the calls settle: \<open>order\<close>
  lists the indices of the files in that order. The digest function of the \<open>crypto\<close>
  module is the parameter \<open>md5hex\<close>. A file whose \<open>stat\<close> fails feeds nothing and has
  its cache entries removed.
\<close>

definition startsWith :: "string \<Rightarrow> string \<Rightarrow> bool" where
  "startsWith s p = (take (length p) s = p)"

fun hashUpdates :: "fsys \<Rightarrow> string list \<Rightarrow> string \<times> cache option \<Rightarrow> string \<times> cache option" where
  "hashUpdates fs [] acc = acc"
| "hashUpdates fs (file # rest) (hashed, parseCache) =
     (case fs file of
        Some entry \<Rightarrow> hashUpdates fs rest (hashed @ file @ '':'' @ mtimeMs (fstats entry), parseCache)
      | None \<Rightarrow>
          hashUpdates fs rest
            (hashed, map_option (filter (\<lambda>(key, v). \<not> startsWith key (file @ '':''))) parseCache))"

definition settledFiles :: "string list \<Rightarrow> nat list \<Rightarrow> string list" where
  "settledFiles svgFiles order = map (\<lambda>i. svgFiles ! i) [i \<leftarrow> order. i < length svgFiles]"

definition hashedData :: "fsys \<Rightarrow> string list \<Rightarrow> nat list \<Rightarrow> string" where
  "hashedData fs svgFiles order = fst (hashUpdates fs (settledFiles svgFiles order) ([], None))"

definition generateHashFromMtime ::
  "(string \<Rightarrow> string) \<Rightarrow> fsys \<Rightarrow> string list \<Rightarrow> cache option \<Rightarrow> nat list \<Rightarrow> string \<times> cache option" where
  "generateHashFromMtime md5hex fs svgFiles parseCache order =
     (case hashUpdates fs (settledFiles svgFiles order) ([], parseCache) of
        (hashed, parseCache') \<Rightarrow> (take 8 (md5hex hashed), parseCache'))"

section \<open>Live update\<close>

text \<open>
  \<open>buildSpriteFromFilesInternal\<close> parses every file and assembles the sprite. The
  parses run concurrently in the source; here they run in the order of the list, which
  only fixes the order of insertion into the cache.
\<close>

fun parseAll ::
  "options \<Rightarrow> optimizer \<Rightarrow> (nat \<Rightarrow> fsys) \<Rightarrow> cache \<Rightarrow> string list \<Rightarrow> ParsedSVG option list \<times> cache" where
  "parseAll opts svgo fs cache [] = ([], cache)"
| "parseAll opts svgo fs cache (filePath # rest) =
     (case parseSVGCachedInternal opts svgo fs cache filePath 0 of
        (parsed, cache') \<Rightarrow>
          (case parseAll opts svgo fs cache' rest of
             (results, cache'') \<Rightarrow> (parsed # results, cache'')))"

definition buildSpriteFromFilesInternal ::
  "options \<Rightarrow> optimizer \<Rightarrow> (nat \<Rightarrow> fsys) \<Rightarrow> cache \<Rightarrow> string list \<Rightarrow> string \<times> cache" where
  "buildSpriteFromFilesInternal opts svgo fs cache files =
     (case parseAll opts svgo fs cache files of
        (parsedResults, cache') \<Rightarrow> (buildSpriteFromFiles opts files parsedResults, cache'))"

fun getIconCount :: "string \<Rightarrow> nat" where
  "getIconCount [] = 0"
| "getIconCount (c # cs) =
     (if startsWith (c # cs) ''<symbol'' then Suc (getIconCount cs) else getIconCount cs)"

text \<open>
  The body of the debounced \<open>regenerateSprite\<close>. \<open>newSvgFiles\<close> is what \<open>findSVGFiles\<close>
  returns; the messages are those sent with \<open>server.ws.send\<close>. No step of the body throws
  in this model, so the \<open>catch\<close> with its \<open>full-reload\<close> message is not reached.
\<close>

record plugin_state =
  parseCache :: cache
  svgFiles :: "string list"
  spriteContent :: string
  lastHash :: string

datatype ws_message = SpriteUpdate string nat | FullReload

definition regenerateSprite ::
  "options \<Rightarrow> optimizer \<Rightarrow> (string \<Rightarrow> string) \<Rightarrow> string list \<Rightarrow> fsys \<Rightarrow> nat list \<Rightarrow> (nat \<Rightarrow> fsys)
     \<Rightarrow> plugin_state \<Rightarrow> plugin_state \<times> ws_message list" where
  "regenerateSprite opts svgo md5hex newSvgFiles fsHash order fsParse st =
     (if length newSvgFiles = 0 then
        (st\<lparr>spriteContent := generateSprite [] opts, lastHash := []\<rparr>,
         [SpriteUpdate (generateSprite [] opts) 0])
      else
        (case generateHashFromMtime md5hex fsHash newSvgFiles (Some (parseCache st)) order of
           (newHash, purged) \<Rightarrow>
             let st1 = (case purged of Some c \<Rightarrow> st\<lparr>parseCache := c\<rparr> | None \<Rightarrow> st) in
             if newHash \<noteq> lastHash st1 then
               (case buildSpriteFromFilesInternal opts svgo fsParse (parseCache st1) newSvgFiles of
                  (sprite, cache') \<Rightarrow>
                    (st1\<lparr>parseCache := cache', svgFiles := newSvgFiles,
                        spriteContent := sprite, lastHash := newHash\<rparr>,
                     [SpriteUpdate sprite (getIconCount sprite)]))
             else (st1, [])))"

section \<open>Path validator\<close>

text \<open>
  \<open>resolve\<close>, \<open>relative\<close> and \<open>isAbsolute\<close> of Node's \<open>path\<close> module and \<open>normalizePath\<close>
  of Vite are platform code, not part of the plugin. They are modelled for POSIX paths.
  \<open>resolve\<close> goes through its arguments from the right, and then the working directory
  \<open>cwd\<close>, until the path is absolute, and normalizes the segments: empty segments and
  \<open>.\<close> are dropped, \<open>..\<close> removes the segment before it. \<open>relative\<close> resolves both
  paths, removes their common leading segments, and answers one \<open>..\<close> for each segment
  left of the first path followed by the segments left of the second. \<open>normalizePath\<close> is
  \<open>path.posix.normalize\<close>.
\<close>

definition isAbsolute :: "string \<Rightarrow> bool" where
  "isAbsolute p = (p \<noteq> [] \<and> hd p = CHR ''/'')"

fun splitSlash :: "string \<Rightarrow> string list" where
  "splitSlash [] = [[]]"
| "splitSlash (c # cs) =
     (if c = CHR ''/'' then [] # splitSlash cs
      else (case splitSlash cs of [] \<Rightarrow> [[c]] | w # ws \<Rightarrow> (c # w) # ws))"

fun normalizeSegs :: "bool \<Rightarrow> string list \<Rightarrow> string list \<Rightarrow> string list" where
  "normalizeSegs allowAboveRoot [] res = res"
| "normalizeSegs allowAboveRoot (seg # segs) res =
     (if seg = [] \<or> seg = ''.'' then normalizeSegs allowAboveRoot segs res
      else if seg = ''..'' then
        (if res \<noteq> [] \<and> last res \<noteq> ''..'' then normalizeSegs allowAboveRoot segs (butlast res)
         else if allowAboveRoot then normalizeSegs allowAboveRoot segs (res @ [''..''])
         else normalizeSegs allowAboveRoot segs res)
      else normalizeSegs allowAboveRoot segs (res @ [seg]))"

definition normalizeString :: "string \<Rightarrow> bool \<Rightarrow> string" where
  "normalizeString path allowAboveRoot = joinWith ''/'' (normalizeSegs allowAboveRoot (splitSlash path) [])"

fun resolveArgs :: "string list \<Rightarrow> string \<Rightarrow> string \<times> bool" where
  "resolveArgs [] resolvedPath = (resolvedPath, False)"
| "resolveArgs (path # paths) resolvedPath =
     (if path = [] then resolveArgs paths resolvedPath
      else if hd path = CHR ''/'' then (path @ ''/'' @ resolvedPath, True)
      else resolveArgs paths (path @ ''/'' @ resolvedPath))"

definition resolve :: "string \<Rightarrow> string list \<Rightarrow> string" where
  "resolve cwd args =
     (case resolveArgs (rev args @ [cwd]) [] of
        (resolvedPath, resolvedAbsolute) \<Rightarrow>
          let normalized = normalizeString resolvedPath (\<not> resolvedAbsolute) in
          if resolvedAbsolute then CHR ''/'' # normalized
          else if normalized \<noteq> [] then normalized else ''.'')"

definition segments :: "string \<Rightarrow> string list" where
  "segments p = filter (\<lambda>seg. seg \<noteq> []) (splitSlash p)"

fun stripCommon :: "string list \<Rightarrow> string list \<Rightarrow> string list \<times> string list" where
  "stripCommon (a # as) (b # bs) = (if a = b then stripCommon as bs else (a # as, b # bs))"
| "stripCommon as bs = (as, bs)"

definition relative :: "string \<Rightarrow> string \<Rightarrow> string \<Rightarrow> string" where
  "relative cwd from to =
     (if from = to then []
      else let from' = resolve cwd [from]; to' = resolve cwd [to] in
        if from' = to' then []
        else (case stripCommon (segments from') (segments to') of
                (up, down) \<Rightarrow> joinWith ''/'' (replicate (length up) ''..'' @ down)))"

definition normalizePath :: "string \<Rightarrow> string" where
  "normalizePath p =
     (if p = [] then ''.''
      else let isAbs = (hd p = CHR ''/'');
               trailingSeparator = (last p = CHR ''/'');
               normalized = normalizeString p (\<not> isAbs)
           in if normalized = [] then (if isAbs then ''/'' else if trailingSeparator then ''./'' else ''.'')
              else let normalized' = (if trailingSeparator then normalized @ ''/'' else normalized)
                   in if isAbs then CHR ''/'' # normalized' else normalized')"

text \<open>
  \<open>validateIconsPath(userPath, projectRoot)\<close>; \<open>Inl\<close> is the thrown error. The second
  error carries the user's path, the resolved path and the root, as the message does.
\<close>

datatype path_error = EmptyPath | PathTraversal string string string

definition validateIconsPath :: "string \<Rightarrow> string \<Rightarrow> string \<Rightarrow> path_error + string" where
  "validateIconsPath cwd userPath projectRoot =
     (if userPath = [] then Inl EmptyPath
      else let absolutePath = resolve cwd [projectRoot, userPath];
               relativePath = relative cwd projectRoot absolutePath
           in if startsWith relativePath ''..'' \<or> isAbsolute relativePath
              then Inl (PathTraversal userPath absolutePath projectRoot)
              else Inr (normalizePath absolutePath))"

text \<open>
  The resolution of \<open>userPath\<close> lies inside the root when the segments of the resolved
  root are a prefix of the segments of the resolved path. \<open>dotDotBelowRoot\<close> holds when
  the first segment of the resolved path below the root is a name that begins with two
  dots. Segments are clean when none is empty, \<open>.\<close> or \<open>..\<close> or has a slash.
\<close>

definition insideRoot :: "string \<Rightarrow> string \<Rightarrow> string \<Rightarrow> bool" where
  "insideRoot cwd projectRoot userPath =
     (let root = segments (resolve cwd [projectRoot]);
          target = segments (resolve cwd [projectRoot, userPath])
      in take (length root) target = root)"


definition dotDotBelowRoot :: "string \<Rightarrow> string \<Rightarrow> string \<Rightarrow> bool" where
  "dotDotBelowRoot cwd projectRoot userPath =
     (let root = segments (resolve cwd [projectRoot]);
          target = segments (resolve cwd [projectRoot, userPath])
      in case drop (length root) target of [] \<Rightarrow> False | seg # _ \<Rightarrow> startsWith seg ''..'')"

definition cleanSegs :: "string list \<Rightarrow> bool" where
  "cleanSegs segs = (\<forall>seg \<in> set segs. seg \<noteq> [] \<and> CHR ''/'' \<notin> set seg \<and> seg \<noteq> ''.'' \<and> seg \<noteq> ''..'')"

section \<open>Symbols in the text of the sprite\<close>

text \<open>
  The sprite is a string, and a symbol with the identifier \<open>ident\<close> is in it where the
  opening of a \<open>symbol\<close> tag with that \<open>id\<close> attribute occurs, as \<open>generateSymbol\<close>
  writes it. \<open>countOcc pat s\<close> is the number of positions of \<open>s\<close> where \<open>pat\<close> occurs.
  A string has no symbol tag when \<open><symbol\<close> does not occur in it.
\<close>

definition symbolOpening :: "string \<Rightarrow> string" where
  \<open>symbolOpening ident = ''<symbol id="'' @ safeId ident @ ''"''\<close>

fun countOcc :: "string \<Rightarrow> string \<Rightarrow> nat" where
  "countOcc pat [] = 0"
| "countOcc pat (c # cs) = (if startsWith (c # cs) pat then 1 else 0) + countOcc pat cs"

declare countOcc.simps(2) [simp del]

definition noSymbolTag :: "string \<Rightarrow> bool" where
  "noSymbolTag s = (\<not> includesStr s ''<symbol'')"

section \<open>Example inputs\<close>

text \<open>The default options of the plugin outside a production build, and small file
  systems, for the concrete instances below.\<close>

definition defaultOpts :: options where
  "defaultOpts = \<lparr>spriteId = ''sprite-id'', spriteClass = ''sprite-class'', idPrefix = [], svgoOptimize = False\<rparr>"

definition singleFile :: "string \<Rightarrow> nat \<Rightarrow> string \<Rightarrow> string \<Rightarrow> fsys" where
  "singleFile path bytes mtime cont =
     (\<lambda>p. if p = path then Some \<lparr>fstats = \<lparr>sizeBytes = bytes, mtimeMs = mtime\<rparr>, fdata = Some cont\<rparr>
          else None)"

definition twoFiles :: fsys where
  "twoFiles =
     (\<lambda>p. if p = ''/icons/a.svg'' then Some \<lparr>fstats = \<lparr>sizeBytes = 10, mtimeMs = ''1''\<rparr>, fdata = Some ''<svg><g/></svg>''\<rparr>
          else if p = ''/icons/b.svg'' then Some \<lparr>fstats = \<lparr>sizeBytes = 10, mtimeMs = ''2''\<rparr>, fdata = Some ''<svg><g/></svg>''\<rparr>
          else None)"

text \<open>Two icon files of which the first holds a \<open>symbol\<close> element with the \<open>id\<close>
  \<open>home\<close>, and two files named \<open>home.svg\<close> in two directories of which the first has
  no closing \<open>svg\<close> tag.\<close>

definition nestedSymbolFiles :: fsys where
  \<open>nestedSymbolFiles =
     (\<lambda>p. if p = ''/icons/a.svg''
          then Some \<lparr>fstats = \<lparr>sizeBytes = 65, mtimeMs = ''1''\<rparr>,
                     fdata = Some ''<svg viewBox="0 0 24 24"><symbol id="home"><path/></symbol></svg>''\<rparr>
          else if p = ''/icons/home.svg''
          then Some \<lparr>fstats = \<lparr>sizeBytes = 40, mtimeMs = ''2''\<rparr>,
                     fdata = Some ''<svg viewBox="0 0 24 24"><circle/></svg>''\<rparr>
          else None)\<close>

definition sameNameFiles :: fsys where
  \<open>sameNameFiles =
     (\<lambda>p. if p = ''/icons/a/home.svg''
          then Some \<lparr>fstats = \<lparr>sizeBytes = 9, mtimeMs = ''1''\<rparr>, fdata = Some ''<svg><g/>''\<rparr>
          else if p = ''/icons/b/home.svg''
          then Some \<lparr>fstats = \<lparr>sizeBytes = 15, mtimeMs = ''2''\<rparr>, fdata = Some ''<svg><g/></svg>''\<rparr>
          else None)\<close>

text \<open>An attempt of the parser reaches the content \<open>cont\<close> of a file when \<open>stat\<close>
  succeeds, the size is within the ceiling, the cache has no entry for the key, and
  reading gives \<open>cont\<close>.\<close>

definition reachesContent :: "options \<Rightarrow> fsys \<Rightarrow> cache \<Rightarrow> string \<Rightarrow> string \<Rightarrow> bool" where
  "reachesContent opts fs cache filePath cont =
     (case fs filePath of
        None \<Rightarrow> False
      | Some file \<Rightarrow>
          sizeBytes (fstats file) \<le> MAX_FILE_SIZE
          \<and> map_of cache (cacheKey opts filePath (fstats file)) = None
          \<and> fdata file = Some cont)"

section \<open>Properties of the identifier\<close>

lemma star_unfold:
  "matches ic (Star a) st =
     concat (map (\<lambda>st'. if remaining st' < remaining st then matches ic (Star a) st' else [])
                 (matches ic a st)) @ [st]"
  by (rule matches.simps(9))

lemma idChar_idChars: "idChar c \<longleftrightarrow> c \<in> set idChars"
  by (auto simp: idChar_def isLower_def isUpper_def isDigit_def idChars_def)

lemma star_head:
  assumes "\<And>st. matches ic X st = oneChar P st"
  shows "\<exists>p' more. matches ic (Star X) (p, s, k) = (p', dropWhile P s, k) # more
           \<and> (p \<noteq> None \<longrightarrow> p' \<noteq> None)"
proof (induction s arbitrary: p)
  case Nil
  show ?case by (subst star_unfold) (simp add: assms oneChar_def)
next
  case (Cons c cs)
  show ?case
  proof (cases "P c")
    case True
    from Cons [of "Some c"] obtain p' more where
      "matches ic (Star X) (Some c, cs, k) = (p', dropWhile P cs, k) # more" "p' \<noteq> None"
      by auto
    with True show ?thesis by (subst star_unfold) (simp add: assms oneChar_def remaining_def)
  next
    case False
    then show ?thesis by (subst star_unfold) (simp add: assms oneChar_def)
  qed
qed

lemma star_set:
  assumes "\<And>st. matches ic X st = oneChar P st"
  shows "st' \<in> set (matches ic (Star X) (p, s, k)) \<Longrightarrow>
         \<exists>n \<le> length (takeWhile P s). fst (snd st') = drop n s"
proof (induction s arbitrary: p)
  case Nil
  then have "st' = (p, [], k)"
    by (subst (asm) star_unfold) (simp add: assms oneChar_def)
  then show ?case by simp
next
  case (Cons c cs)
  show ?case
  proof (cases "P c")
    case True
    with Cons.prems have "st' \<in> set (matches ic (Star X) (Some c, cs, k)) \<or> st' = (p, c # cs, k)"
      by (subst (asm) star_unfold) (auto simp: assms oneChar_def remaining_def)
    then show ?thesis
    proof
      assume "st' \<in> set (matches ic (Star X) (Some c, cs, k))"
      from Cons.IH [OF this] obtain n where "n \<le> length (takeWhile P cs)" "fst (snd st') = drop n cs"
        by blast
      with True have "Suc n \<le> length (takeWhile P (c # cs)) \<and> fst (snd st') = drop (Suc n) (c # cs)"
        by simp
      then show ?thesis by blast
    next
      assume "st' = (p, c # cs, k)"
      then have "0 \<le> length (takeWhile P (c # cs)) \<and> fst (snd st') = drop 0 (c # cs)" by simp
      then show ?thesis by blast
    qed
  next
    case False
    with Cons.prems have "st' = (p, c # cs, k)"
      by (subst (asm) star_unfold) (simp add: assms oneChar_def)
    with False show ?thesis by simp
  qed
qed

lemma matches_NoneOf: "matches False (NoneOf cs) st = oneChar (\<lambda>c. c \<notin> set cs) st"
  by (simp add: sameChar_def)

lemma matches_dash: "matches False (Lit ''-'') st = oneChar isDash st"
proof -
  obtain p r k where st: "st = (p, r, k)" by (cases st)
  show ?thesis
    unfolding st by (cases r) (auto simp: oneChar_def sameChar_def isDash_def)
qed


lemma plus_matches:
  assumes "\<And>st. matches ic X st = oneChar P st"
  shows "matches ic (Plus X) (p, s, k) =
           (case s of [] \<Rightarrow> [] | c # cs \<Rightarrow> if P c then matches ic (Star X) (Some c, cs, k) else [])"
  by (simp add: Plus_def assms oneChar_def split: list.splits)

lemma firstMatch_invalid_none:
  "s = [] \<or> idChar (hd s) \<Longrightarrow> firstMatch False invalidRunPattern prev s = None"
  by (cases s)
     (auto simp: firstMatch_def invalidRunPattern_def plus_matches [OF matches_NoneOf] idChar_idChars)

lemma firstMatch_invalid_some:
  assumes "\<not> idChar c"
  shows "\<exists>p'. firstMatch False invalidRunPattern prev (c # cs) =
           Some (p', dropWhile (\<lambda>d. \<not> idChar d) cs, [])"
proof -
  from star_head [OF matches_NoneOf, of idChars "Some c" cs "[]"]
  obtain p' more where
    "matches False (Star (NoneOf idChars)) (Some c, cs, []) =
       (p', dropWhile (\<lambda>c. c \<notin> set idChars) cs, []) # more"
    by blast
  with assms show ?thesis
    by (simp add: firstMatch_def invalidRunPattern_def plus_matches [OF matches_NoneOf] idChar_idChars)
qed

lemma replaceAll_invalidRuns:
  "replaceAll False invalidRunPattern ''-'' prev s = replaceInvalidRuns s"
proof (induction s arbitrary: prev rule: replaceInvalidRuns.induct)
  case 1
  show ?case
    by (subst replaceAll.simps) (simp add: firstMatch_invalid_none)
next
  case (2 c cs)
  show ?case
  proof (cases "idChar c")
    case True
    then show ?thesis
      using "2.IH"(1) by (subst replaceAll.simps) (simp add: firstMatch_invalid_none)
  next
    case False
    from firstMatch_invalid_some [OF False, of prev cs] obtain p' where
      "firstMatch False invalidRunPattern prev (c # cs) = Some (p', dropWhile (\<lambda>d. \<not> idChar d) cs, [])"
      by blast
    with False "2.IH"(2) [of p'] show ?thesis
      by (subst replaceAll.simps) (simp add: length_dropWhile_le less_Suc_eq_le)
  qed
qed

lemma stripTrailingDashes_all: "list_all isDash s \<Longrightarrow> stripTrailingDashes s = []"
  by (simp add: stripTrailingDashes_def list_all_iff)

lemma stripTrailingDashes_Cons:
  "\<not> list_all isDash (c # cs) \<Longrightarrow> stripTrailingDashes (c # cs) = c # stripTrailingDashes cs"
proof (cases "list_all isDash cs")
  case True
  assume "\<not> list_all isDash (c # cs)"
  with True have c: "\<not> isDash c" by simp
  have "dropWhile isDash (rev cs @ [c]) = dropWhile isDash [c]"
    by (rule dropWhile_append2) (use True in \<open>auto simp: list_all_iff\<close>)
  moreover have "dropWhile isDash (rev cs) = []"
    using True by (simp add: list_all_iff)
  ultimately show ?thesis
    using c by (simp add: stripTrailingDashes_def)
next
  case False
  then obtain x where "x \<in> set (rev cs)" "\<not> isDash x" by (auto simp: list_all_iff)
  then show ?thesis
    by (simp add: stripTrailingDashes_def dropWhile_append1)
qed

lemma plus_dash_Eol:
  "matches False (Seq (Plus (Lit ''-'')) Eol) (p, s, k) =
     filter (\<lambda>st'. fst (snd st') = []) (matches False (Plus (Lit ''-'')) (p, s, k))"
proof -
  have "concat (map (matches False Eol) L) = filter (\<lambda>st'. fst (snd st') = []) L" for L
    by (induction L) auto
  then show ?thesis by simp
qed

lemma length_takeWhile_less: "\<not> list_all P xs \<Longrightarrow> length (takeWhile P xs) < length xs"
  by (induction xs) auto

lemma edge_B_none:
  assumes "\<not> (s \<noteq> [] \<and> list_all isDash s)"
  shows "matches False (Seq (Plus (Lit ''-'')) Eol) (p, s, k) = []"
proof (cases s)
  case Nil
  then show ?thesis by (simp add: plus_dash_Eol plus_matches [OF matches_dash] del: matches.simps)
next
  case (Cons c cs)
  show ?thesis
  proof (cases "isDash c")
    case False
    with Cons show ?thesis by (simp add: plus_dash_Eol plus_matches [OF matches_dash] del: matches.simps)
  next
    case True
    with assms Cons have nd: "\<not> list_all isDash cs" by simp
    have "fst (snd st') \<noteq> []" if "st' \<in> set (matches False (Star (Lit ''-'')) (Some c, cs, k))" for st'
    proof -
      from star_set [OF matches_dash that] obtain n where
        n: "n \<le> length (takeWhile isDash cs)" "fst (snd st') = drop n cs"
        by blast
      from nd have "length (takeWhile isDash cs) < length cs"
        by (rule length_takeWhile_less)
      with n show ?thesis by simp
    qed
    then have "filter (\<lambda>st'. fst (snd st') = []) (matches False (Star (Lit ''-'')) (Some c, cs, k)) = []"
      by (simp add: filter_empty_conv)
    with True Cons show ?thesis by (simp add: plus_dash_Eol plus_matches [OF matches_dash] del: matches.simps)
  qed
qed

lemma edge_B_some:
  assumes "s \<noteq> []" "list_all isDash s"
  shows "\<exists>p' more. matches False (Seq (Plus (Lit ''-'')) Eol) (p, s, k) = (p', [], k) # more"
proof -
  from assms obtain c cs where s: "s = c # cs" "isDash c" "list_all isDash cs"
    by (cases s) auto
  from star_head [OF matches_dash, of "Some c" cs k] obtain p' more where
    "matches False (Star (Lit ''-'')) (Some c, cs, k) = (p', dropWhile isDash cs, k) # more"
    by blast
  moreover from s(3) have "dropWhile isDash cs = []" by (simp add: list_all_iff)
  ultimately show ?thesis
    using s by (simp add: plus_dash_Eol plus_matches [OF matches_dash] del: matches.simps)
qed

lemma edge_A:
  "matches False (Seq Bol (Plus (Lit ''-''))) (p, s, k) =
     (if p = None then matches False (Plus (Lit ''-'')) (p, s, k) else [])"
  by (cases p) (simp_all del: matches.simps(1))

lemma edge_alt:
  "matches False edgeDashesPattern st =
     matches False (Seq Bol (Plus (Lit ''-''))) st @ matches False (Seq (Plus (Lit ''-'')) Eol) st"
  by (simp only: edgeDashesPattern_def matches.simps(8))

lemma firstMatch_edge_inner_none:
  assumes "\<not> (s \<noteq> [] \<and> list_all isDash s)"
  shows "firstMatch False edgeDashesPattern (Some q) s = None"
proof -
  have "matches False (Seq (Plus (Lit ''-'')) Eol) (Some q, s, []) = []"
    by (rule edge_B_none [OF assms])
  then show ?thesis
    by (simp only: firstMatch_def edge_alt edge_A) simp
qed

lemma firstMatch_edge_inner_some:
  assumes "s \<noteq> []" "list_all isDash s"
  shows "\<exists>p' caps. firstMatch False edgeDashesPattern (Some q) s = Some (p', [], caps)"
proof -
  from edge_B_some [OF assms, of "Some q" "[]"] obtain p' more where
    "matches False (Seq (Plus (Lit ''-'')) Eol) (Some q, s, []) = (p', [], []) # more"
    by blast
  then show ?thesis
    by (simp only: firstMatch_def edge_alt edge_A) simp
qed


lemma firstMatch_edge_empty: "firstMatch False edgeDashesPattern p [] = None"
proof -
  have "matches False (Seq (Plus (Lit ''-'')) Eol) (p, [], []) = []"
    by (rule edge_B_none) simp
  moreover have "matches False (Plus (Lit ''-'')) (p, [], []) = []"
    by (simp add: plus_matches [OF matches_dash] del: matches.simps)
  ultimately show ?thesis
    by (simp only: firstMatch_def edge_alt edge_A) simp
qed

lemma replaceAll_edge_empty: "replaceAll False edgeDashesPattern [] p [] = []"
  by (subst replaceAll.simps) (simp add: firstMatch_edge_empty)

lemma replaceAll_edge_inner:
  "replaceAll False edgeDashesPattern [] (Some q) s = stripTrailingDashes s"
proof (induction s arbitrary: q)
  case Nil
  show ?case by (simp add: replaceAll_edge_empty stripTrailingDashes_def)
next
  case (Cons c cs)
  show ?case
  proof (cases "list_all isDash (c # cs)")
    case True
    from firstMatch_edge_inner_some [OF _ True, of q] obtain p' caps where
      "firstMatch False edgeDashesPattern (Some q) (c # cs) = Some (p', [], caps)"
      by blast
    then have "replaceAll False edgeDashesPattern [] (Some q) (c # cs) = []"
      by (subst replaceAll.simps) (simp add: replaceAll_edge_empty)
    with True show ?thesis by (simp only: stripTrailingDashes_all)
  next
    case False
    then have "firstMatch False edgeDashesPattern (Some q) (c # cs) = None"
      by (intro firstMatch_edge_inner_none) simp
    then have "replaceAll False edgeDashesPattern [] (Some q) (c # cs) =
               c # replaceAll False edgeDashesPattern [] (Some c) cs"
      by (subst replaceAll.simps) simp
    with Cons [of c] stripTrailingDashes_Cons [OF False] show ?thesis by simp
  qed
qed

lemma replaceAll_edge_start:
  "replaceAll False edgeDashesPattern [] None s = trimDashes s"
proof (cases s)
  case Nil
  then show ?thesis by (simp add: replaceAll_edge_empty trimDashes_def)
next
  case (Cons c cs)
  show ?thesis
  proof (cases "isDash c")
    case True
    from star_head [OF matches_dash, of "Some c" cs "[]"] obtain p' more where
      h: "matches False (Star (Lit ''-'')) (Some c, cs, []) = (p', dropWhile isDash cs, []) # more"
      and "p' \<noteq> None"
      by blast
    then obtain q where q: "p' = Some q" by auto
    have "matches False (Plus (Lit ''-'')) (None, c # cs, []) = (p', dropWhile isDash cs, []) # more"
      using True h by (simp add: plus_matches [OF matches_dash] del: matches.simps)
    then have "firstMatch False edgeDashesPattern None (c # cs) = Some (p', dropWhile isDash cs, [])"
      by (simp only: firstMatch_def edge_alt edge_A) simp
    then have "replaceAll False edgeDashesPattern [] None (c # cs) =
               replaceAll False edgeDashesPattern [] p' (dropWhile isDash cs)"
      by (subst replaceAll.simps) (simp add: length_dropWhile_le less_Suc_eq_le)
    with q True Cons show ?thesis
      by (simp add: replaceAll_edge_inner trimDashes_def stripTrailingDashes_def)
  next
    case False
    then have nd: "\<not> list_all isDash (c # cs)" by simp
    have "matches False (Plus (Lit ''-'')) (None, c # cs, []) = []"
      using False by (simp add: plus_matches [OF matches_dash] del: matches.simps)
    moreover have "matches False (Seq (Plus (Lit ''-'')) Eol) (None, c # cs, []) = []"
      by (rule edge_B_none) (use nd in simp)
    ultimately have "firstMatch False edgeDashesPattern None (c # cs) = None"
      by (simp only: firstMatch_def edge_alt edge_A) simp
    then have "replaceAll False edgeDashesPattern [] None (c # cs) =
               c # replaceAll False edgeDashesPattern [] (Some c) cs"
      by (subst replaceAll.simps) simp
    also have "\<dots> = stripTrailingDashes (c # cs)"
      using stripTrailingDashes_Cons [OF nd] by (simp add: replaceAll_edge_inner)
    also have "\<dots> = trimDashes (c # cs)"
      using False by (simp add: trimDashes_def stripTrailingDashes_def)
    finally show ?thesis using Cons by simp
  qed
qed

lemma cleanName_eq: "cleanName fileName = trimDashes (replaceInvalidRuns fileName)"
  by (simp add: cleanName_def replaceAll_invalidRuns replaceAll_edge_start)

lemma replaceInvalidRuns_idChar: "c \<in> set (replaceInvalidRuns s) \<Longrightarrow> idChar c"
proof (induction s rule: replaceInvalidRuns.induct)
  case 1
  then show ?case by simp
next
  case (2 d ds)
  then show ?case by (auto simp: idChar_def split: if_splits)
qed

lemma set_trimDashes: "set (trimDashes s) \<subseteq> set s"
proof -
  have "set (trimDashes s) \<subseteq> set (dropWhile isDash s)"
    unfolding trimDashes_def using set_dropWhileD by fastforce
  also have "\<dots> \<subseteq> set s"
    using set_dropWhileD by fastforce
  finally show ?thesis .
qed

lemma cleanName_idChar: "c \<in> set (cleanName s) \<Longrightarrow> idChar c"
  using set_trimDashes replaceInvalidRuns_idChar unfolding cleanName_eq by blast

lemma replaceInvalidRuns_id: "list_all idChar s \<Longrightarrow> replaceInvalidRuns s = s"
  by (induction s) auto

lemma trimDashes_id:
  assumes "s \<noteq> []" "\<not> isDash (hd s)" "\<not> isDash (last s)"
  shows "trimDashes s = s"
proof -
  from assms have "dropWhile isDash s = s" by (cases s) auto
  moreover from assms have "dropWhile isDash (rev s) = rev s"
    by (cases "rev s") (auto simp: last_rev [symmetric] simp del: last_rev)
  ultimately show ?thesis by (simp add: trimDashes_def)
qed

lemma basename_home: "basename ''home.svg'' ''.svg'' = ''home''"
  by (simp add: basename_def lastSegment_def stripTrailingSlashes_def endsWith_def isSlash_def)

lemma cleanName_home: "cleanName ''home'' = ''home''"
  by (simp add: cleanName_eq trimDashes_def idChar_def isLower_def isDash_def)

lemma replaceInvalidRuns_append:
  "a = [] \<or> idChar (last a) \<Longrightarrow> replaceInvalidRuns (a @ b) = replaceInvalidRuns a @ replaceInvalidRuns b"
proof (induction a rule: replaceInvalidRuns.induct)
  case 1
  then show ?case by simp
next
  case (2 c cs)
  show ?case
  proof (cases "idChar c")
    case True
    with 2 show ?thesis by (cases cs) auto
  next
    case False
    with "2.prems" have ne: "cs \<noteq> []" and l: "idChar (last cs)" by (auto split: if_splits)
    then have m: "last cs \<in> set cs" by simp
    have d: "dropWhile (\<lambda>d. \<not> idChar d) (cs @ b) = dropWhile (\<lambda>d. \<not> idChar d) cs @ b"
      using m l by (simp add: dropWhile_append1)
    have dne: "dropWhile (\<lambda>d. \<not> idChar d) cs \<noteq> []"
      using m l by (auto simp: dropWhile_eq_Nil_conv)
    have "last (dropWhile (\<lambda>d. \<not> idChar d) cs) = last cs"
      using dne by (metis last_appendR takeWhile_dropWhile_id)
    with l dne "2.IH"(2) [OF False] have
      "replaceInvalidRuns (dropWhile (\<lambda>d. \<not> idChar d) cs @ b) =
       replaceInvalidRuns (dropWhile (\<lambda>d. \<not> idChar d) cs) @ replaceInvalidRuns b"
      by simp
    with False d show ?thesis by simp
  qed
qed

lemma replaceInvalidRuns_run:
  assumes "bad \<noteq> []" "list_all (\<lambda>c. \<not> idChar c) bad" "b = [] \<or> idChar (hd b)"
  shows "replaceInvalidRuns (bad @ b) = CHR ''-'' # replaceInvalidRuns b"
proof -
  from assms(1) obtain c cs where bad: "bad = c # cs" by (cases bad) auto
  with assms(2) have c: "\<not> idChar c" and cs: "\<forall>x \<in> set cs. \<not> idChar x"
    by (auto simp: list_all_iff)
  have "dropWhile (\<lambda>d. \<not> idChar d) (cs @ b) = dropWhile (\<lambda>d. \<not> idChar d) b"
    using cs by (simp add: dropWhile_append2)
  also have "\<dots> = b"
    using assms(3) by (cases b) auto
  finally show ?thesis using bad c by simp
qed

lemma idChar_dash: "idChar (CHR ''-'')"
  by (simp add: idChar_def)

lemma cleanName_run:
  assumes "a = [] \<or> idChar (last a)" "bad \<noteq> []" "list_all (\<lambda>c. \<not> idChar c) bad" "b = [] \<or> idChar (hd b)"
  shows "cleanName (a @ bad @ b) = trimDashes (replaceInvalidRuns a @ ''-'' @ replaceInvalidRuns b)"
    and "cleanName (a @ bad @ b) = cleanName (a @ ''-'' @ b)"
proof -
  have 1: "replaceInvalidRuns (a @ bad @ b) = replaceInvalidRuns a @ ''-'' @ replaceInvalidRuns b"
    by (simp add: replaceInvalidRuns_append [OF assms(1)] replaceInvalidRuns_run [OF assms(2-4)])
  have 2: "replaceInvalidRuns (a @ ''-'' @ b) = replaceInvalidRuns a @ ''-'' @ replaceInvalidRuns b"
    by (simp add: replaceInvalidRuns_append [OF assms(1)] idChar_dash)
  show "cleanName (a @ bad @ b) = trimDashes (replaceInvalidRuns a @ ''-'' @ replaceInvalidRuns b)"
    by (simp only: cleanName_eq 1)
  show "cleanName (a @ bad @ b) = cleanName (a @ ''-'' @ b)"
    by (simp only: cleanName_eq 1 2)
qed

lemma trimDashes_edges:
  assumes "trimDashes s \<noteq> []"
  shows "\<not> isDash (hd (trimDashes s))" and "\<not> isDash (last (trimDashes s))"
proof -
  let ?d = "dropWhile isDash s"
  from assms have r: "dropWhile isDash (rev ?d) \<noteq> []" by (simp add: trimDashes_def)
  then have "\<not> isDash (hd (dropWhile isDash (rev ?d)))" by (rule hd_dropWhile)
  then show "\<not> isDash (last (trimDashes s))"
    using r by (simp add: trimDashes_def last_rev)
  have dne: "?d \<noteq> []"
  proof
    assume e: "?d = []"
    from r show False unfolding e by simp
  qed
  then have h: "\<not> isDash (hd ?d)" by (rule hd_dropWhile)
  obtain x xs where d: "?d = x # xs" using dne by (cases ?d) auto
  with h have x: "\<not> isDash x" by simp
  have "dropWhile isDash (rev ?d) = dropWhile isDash (rev xs @ [x])" using d by simp
  also have "\<exists>ys. dropWhile isDash (rev xs @ [x]) = ys @ [x]"
    using x by (induction "rev xs" arbitrary: xs) (auto simp: dropWhile_append)
  finally obtain ys where "dropWhile isDash (rev ?d) = ys @ [x]" by auto
  then have "trimDashes s = x # rev ys" by (simp add: trimDashes_def)
  with x show "\<not> isDash (hd (trimDashes s))" by simp
qed


lemma replaceInvalidRuns_append_id:
  "b = [] \<or> idChar (hd b) \<Longrightarrow> replaceInvalidRuns (a @ b) = replaceInvalidRuns a @ replaceInvalidRuns b"
proof (induction a rule: replaceInvalidRuns.induct)
  case 1
  then show ?case by simp
next
  case (2 c cs)
  show ?case
  proof (cases "idChar c")
    case True
    with 2 show ?thesis by simp
  next
    case False
    have b: "dropWhile (\<lambda>d. \<not> idChar d) b = b"
      using "2.prems" by (cases b) auto
    have "dropWhile (\<lambda>d. \<not> idChar d) (cs @ b) = dropWhile (\<lambda>d. \<not> idChar d) cs @ b"
      by (simp add: dropWhile_append b)
    with False "2.IH"(2) [OF False "2.prems"] show ?thesis by simp
  qed
qed

lemma trimDashes_dashes:
  assumes "list_all isDash d1" "list_all isDash d2"
  shows "trimDashes (d1 @ s @ d2) = trimDashes s"
proof -
  from assms have 1: "\<forall>x \<in> set d1. isDash x" and 2: "\<forall>x \<in> set (rev d2). isDash x"
    by (auto simp: list_all_iff)
  have a: "dropWhile isDash (d1 @ s @ d2) = dropWhile isDash (s @ d2)"
    using 1 by (simp add: dropWhile_append2)
  show ?thesis
  proof (cases "list_all isDash s")
    case True
    then have "\<forall>x \<in> set (s @ d2). isDash x" using assms(2) by (auto simp: list_all_iff)
    then have "dropWhile isDash (s @ d2) = []" by (simp only: dropWhile_eq_Nil_conv)
    with a have x: "dropWhile isDash (d1 @ s @ d2) = []" by simp
    from True have y: "dropWhile isDash s = []" by (simp add: dropWhile_eq_Nil_conv list_all_iff)
    show ?thesis unfolding trimDashes_def x y ..
  next
    case False
    then obtain x where "x \<in> set s" "\<not> isDash x" by (auto simp: list_all_iff)
    then have "dropWhile isDash (s @ d2) = dropWhile isDash s @ d2"
      by (simp add: dropWhile_append1)
    then have r: "rev (dropWhile isDash (d1 @ s @ d2)) = rev d2 @ rev (dropWhile isDash s)"
      using a by simp
    have "dropWhile isDash (rev d2 @ rev (dropWhile isDash s)) = dropWhile isDash (rev (dropWhile isDash s))"
    proof (rule dropWhile_append2)
      fix x
      assume "x \<in> set (rev d2)"
      with 2 show "isDash x" by blast
    qed
    then show ?thesis unfolding trimDashes_def r by simp
  qed
qed

lemma list_all_isDash_idChar: "list_all isDash d \<Longrightarrow> list_all idChar d"
  by (auto simp: list_all_iff isDash_def idChar_def)

lemma cleanName_dashes:
  assumes "list_all isDash d1" "list_all isDash d2"
  shows "cleanName (d1 @ s @ d2) = cleanName s"
proof -
  have h: "d = [] \<or> idChar (hd d)" if "list_all isDash d" for d
    using that by (cases d) (auto simp: isDash_def idChar_def)
  have i: "replaceInvalidRuns d = d" if "list_all isDash d" for d
    using that by (simp add: replaceInvalidRuns_id list_all_isDash_idChar)
  have "replaceInvalidRuns (s @ d2) = replaceInvalidRuns s @ d2"
    using replaceInvalidRuns_append_id [OF h [OF assms(2)], of s] i [OF assms(2)] by simp
  moreover have "replaceInvalidRuns (d1 @ (s @ d2)) = d1 @ replaceInvalidRuns (s @ d2)"
  proof (cases d1)
    case Nil
    then show ?thesis by simp
  next
    case (Cons x xs)
    with assms(1) have "idChar (last d1)"
      using list_all_isDash_idChar [OF assms(1)] by (simp add: list_all_iff)
    then show ?thesis
      using replaceInvalidRuns_append [of d1 "s @ d2"] i [OF assms(1)] by simp
  qed
  ultimately have "replaceInvalidRuns (d1 @ s @ d2) = d1 @ replaceInvalidRuns s @ d2" by simp
  then show ?thesis
    by (simp only: cleanName_eq trimDashes_dashes [OF assms])
qed

text \<open>
  Claim C8, as the code has it: the identifier is the cleaned file name (the base name
  without \<open>.svg\<close>), with \<open>prefix-\<close> in front when the prefix is not empty; no letter
  is lowercased. The two replacements that clean the name are \<open>replaceInvalidRuns\<close>
  followed by \<open>trimDashes\<close>. Every character of the cleaned name is in the class
  \<open>[a-zA-Z0-9-_]\<close>. A name of class characters that neither starts nor ends with a
  dash is left as it is, so the case of the letters is kept. A maximal run \<open>bad\<close> of
  characters outside the class, between \<open>a\<close> and \<open>b\<close>, gives what one dash in its
  place gives. Dashes before and after a name are dropped, and a cleaned name neither
  starts nor ends with a dash. The prefix \<open>icon\<close> and the file \<open>home.svg\<close> give
  \<open>icon-home\<close>.
\<close>

theorem generateSymbolId_sanitized:
  "generateSymbolId filePath prefix =
     (if prefix = [] then cleanName (basename filePath ''.svg'')
      else prefix @ ''-'' @ cleanName (basename filePath ''.svg''))
   \<and> (\<forall>c \<in> set (cleanName (basename filePath ''.svg'')). idChar c)
   \<and> (list_all idChar n \<and> n \<noteq> [] \<and> \<not> isDash (hd n) \<and> \<not> isDash (last n) \<longrightarrow> cleanName n = n)
   \<and> generateSymbolId ''home.svg'' ''icon'' = ''icon-home''
   \<and> cleanName m = trimDashes (replaceInvalidRuns m)
   \<and> ((a = [] \<or> idChar (last a)) \<and> bad \<noteq> [] \<and> list_all (\<lambda>c. \<not> idChar c) bad \<and> (b = [] \<or> idChar (hd b)) \<longrightarrow>
        cleanName (a @ bad @ b) = cleanName (a @ ''-'' @ b))
   \<and> (list_all isDash d1 \<and> list_all isDash d2 \<longrightarrow> cleanName (d1 @ m @ d2) = cleanName m)
   \<and> (cleanName m \<noteq> [] \<longrightarrow> \<not> isDash (hd (cleanName m)) \<and> \<not> isDash (last (cleanName m)))"
proof -
  have a: "generateSymbolId filePath prefix =
     (if prefix = [] then cleanName (basename filePath ''.svg'')
      else prefix @ ''-'' @ cleanName (basename filePath ''.svg''))"
    by (simp add: generateSymbolId_def Let_def)
  have b: "\<forall>c \<in> set (cleanName (basename filePath ''.svg'')). idChar c"
    using cleanName_idChar by blast
  have c: "list_all idChar n \<and> n \<noteq> [] \<and> \<not> isDash (hd n) \<and> \<not> isDash (last n) \<longrightarrow> cleanName n = n"
    by (simp add: cleanName_eq replaceInvalidRuns_id trimDashes_id)
  have d: "generateSymbolId ''home.svg'' ''icon'' = ''icon-home''"
    by (simp add: generateSymbolId_def Let_def basename_home cleanName_home)
  have e: "cleanName m = trimDashes (replaceInvalidRuns m)"
    by (rule cleanName_eq)
  have f: "(a = [] \<or> idChar (last a)) \<and> bad \<noteq> [] \<and> list_all (\<lambda>c. \<not> idChar c) bad \<and> (b = [] \<or> idChar (hd b)) \<longrightarrow>
        cleanName (a @ bad @ b) = cleanName (a @ ''-'' @ b)"
    using cleanName_run(2) by blast
  have g: "list_all isDash d1 \<and> list_all isDash d2 \<longrightarrow> cleanName (d1 @ m @ d2) = cleanName m"
    using cleanName_dashes by blast
  have h: "cleanName m \<noteq> [] \<longrightarrow> \<not> isDash (hd (cleanName m)) \<and> \<not> isDash (last (cleanName m))"
    unfolding cleanName_eq using trimDashes_edges by blast
  from a b c d e f g h show ?thesis by blast
qed

lemma basename_My_Icon: "basename ''/icons/My Icon.svg'' ''.svg'' = ''My Icon''"
  by (simp add: basename_def lastSegment_def stripTrailingSlashes_def endsWith_def isSlash_def)

lemma cleanName_My_Icon: "cleanName ''My Icon'' = ''My-Icon''"
  by (simp add: cleanName_eq trimDashes_def idChar_def isLower_def isUpper_def isDigit_def isDash_def)

theorem generateSymbolId_sanitized_witness:
  "generateSymbolId ''/icons/My Icon.svg'' ''icon'' = ''icon-My-Icon''
   \<and> CHR ''M'' \<in> set (cleanName (basename ''/icons/My Icon.svg'' ''.svg''))
   \<and> idChar (CHR ''M'')
   \<and> list_all idChar ''Home'' \<and> \<not> isDash (hd ''Home'') \<and> \<not> isDash (last ''Home'')
   \<and> cleanName ''Home'' = ''Home''
   \<and> cleanName ''-icon  my  icon  2!'' = ''icon-my-icon-2''
   \<and> idChar (last ''my'') \<and> list_all (\<lambda>c. \<not> idChar c) ''  '' \<and> idChar (hd ''icon!'')
   \<and> cleanName (''my'' @ ''  '' @ ''icon!'') = cleanName (''my'' @ ''-'' @ ''icon!'')
   \<and> list_all isDash ''-'' \<and> list_all isDash ''--''
   \<and> cleanName (''-'' @ ''-icon  my  icon  2!'' @ ''--'') = cleanName ''-icon  my  icon  2!''
   \<and> \<not> isDash (hd (cleanName ''-icon  my  icon  2!'')) \<and> \<not> isDash (last (cleanName ''-icon  my  icon  2!''))"
proof -
  have m: "CHR ''M'' \<in> set (cleanName (basename ''/icons/My Icon.svg'' ''.svg''))"
    by (simp add: basename_My_Icon cleanName_My_Icon)
  have h: "list_all idChar ''Home'' \<and> ''Home'' \<noteq> [] \<and> \<not> isDash (hd ''Home'') \<and> \<not> isDash (last ''Home'')"
    by (simp add: idChar_def isLower_def isUpper_def isDash_def)
  have r: "(''my'' = [] \<or> idChar (last ''my'')) \<and> ''  '' \<noteq> [] \<and> list_all (\<lambda>c. \<not> idChar c) ''  ''
      \<and> (''icon!'' = [] \<or> idChar (hd ''icon!''))"
    by (simp add: idChar_def isLower_def isUpper_def isDigit_def)
  have d: "list_all isDash ''-'' \<and> list_all isDash ''--''"
    by (simp add: isDash_def)
  note t = generateSymbolId_sanitized [where filePath = "''/icons/My Icon.svg''" and prefix = "''icon''"
      and n = "''Home''" and m = "''-icon  my  icon  2!''" and a = "''my''" and bad = "''  ''" and b = "''icon!''"
      and ?d1.0 = "''-''" and ?d2.0 = "''--''"]
  from t have 1: "generateSymbolId ''/icons/My Icon.svg'' ''icon'' = ''icon-My-Icon''"
    by (simp add: basename_My_Icon cleanName_My_Icon)
  from t m have 2: "idChar (CHR ''M'')" by blast
  from t h have 3: "cleanName ''Home'' = ''Home''" by blast
  from t have "cleanName ''-icon  my  icon  2!'' = trimDashes (replaceInvalidRuns ''-icon  my  icon  2!'')"
    by blast
  then have 4: "cleanName ''-icon  my  icon  2!'' = ''icon-my-icon-2''"
    by (simp add: trimDashes_def idChar_def isLower_def isUpper_def isDigit_def isDash_def)
  from t r have 5: "cleanName (''my'' @ ''  '' @ ''icon!'') = cleanName (''my'' @ ''-'' @ ''icon!'')"
    by blast
  from t d have 6: "cleanName (''-'' @ ''-icon  my  icon  2!'' @ ''--'') = cleanName ''-icon  my  icon  2!''"
    by blast
  from 4 have ne: "cleanName ''-icon  my  icon  2!'' \<noteq> []" by simp
  with t have 7: "\<not> isDash (hd (cleanName ''-icon  my  icon  2!'')) \<and> \<not> isDash (last (cleanName ''-icon  my  icon  2!''))"
    by blast
  from 1 2 3 4 5 6 7 m h r d show ?thesis by blast
qed

text \<open>Claim C8 as the specification words it fails: the code does not lowercase. The
  file \<open>Home.svg\<close> gets the identifier \<open>icon-Home\<close>, not \<open>icon-home\<close>.\<close>

theorem generateSymbolId_not_lowercased:
  "generateSymbolId ''Home.svg'' ''icon'' = ''icon-Home''
   \<and> symbolId_spec ''Home.svg'' ''icon'' = ''icon-home''
   \<and> generateSymbolId ''Home.svg'' ''icon'' \<noteq> symbolId_spec ''Home.svg'' ''icon''"
proof -
  have b: "basename ''Home.svg'' ''.svg'' = ''Home''"
    by (simp add: basename_def lastSegment_def stripTrailingSlashes_def endsWith_def isSlash_def)
  have c: "cleanName ''Home'' = ''Home''"
    by (simp add: cleanName_eq trimDashes_def idChar_def isLower_def isUpper_def isDash_def)
  have g: "generateSymbolId ''Home.svg'' ''icon'' = ''icon-Home''"
    by (simp add: generateSymbolId_def Let_def b c)
  have s: "symbolId_spec ''Home.svg'' ''icon'' = ''icon-home''"
    by (simp add: symbolId_spec_def Let_def b cleanName_home)
  from g s show ?thesis by simp
qed

section \<open>Properties of the tree-shaking filter\<close>

text \<open>
  Claim C7: with an empty set of used identifiers \<open>filterUsedSvgFiles\<close> returns the whole
  input list; otherwise it returns, in the input's order, exactly the files whose derived
  identifier is in the set.
\<close>

theorem filterUsedSvgFiles_correct:
  "(usedIconIds = {} \<longrightarrow> filterUsedSvgFiles allSvgFiles usedIconIds prefix = allSvgFiles)
   \<and> (usedIconIds \<noteq> {} \<longrightarrow>
        filterUsedSvgFiles allSvgFiles usedIconIds prefix =
          [f \<leftarrow> allSvgFiles. generateSymbolId f prefix \<in> usedIconIds]
        \<and> set (filterUsedSvgFiles allSvgFiles usedIconIds prefix) =
          {f \<in> set allSvgFiles. generateSymbolId f prefix \<in> usedIconIds})"
  by (simp add: filterUsedSvgFiles_def)

lemma generateSymbolId_icons_home: "generateSymbolId ''/icons/home.svg'' [] = ''home''"
proof -
  have "basename ''/icons/home.svg'' ''.svg'' = ''home''"
    by (simp add: basename_def lastSegment_def stripTrailingSlashes_def endsWith_def isSlash_def)
  then show ?thesis by (simp add: generateSymbolId_def Let_def cleanName_home)
qed

lemma generateSymbolId_icons_user: "generateSymbolId ''/icons/user.svg'' [] = ''user''"
proof -
  have "basename ''/icons/user.svg'' ''.svg'' = ''user''"
    by (simp add: basename_def lastSegment_def stripTrailingSlashes_def endsWith_def isSlash_def)
  moreover have "cleanName ''user'' = ''user''"
    by (simp add: cleanName_eq trimDashes_def idChar_def isLower_def isDash_def)
  ultimately show ?thesis by (simp add: generateSymbolId_def Let_def)
qed

theorem filterUsedSvgFiles_correct_witness:
  "filterUsedSvgFiles [''/icons/home.svg'', ''/icons/user.svg''] {} [] =
     [''/icons/home.svg'', ''/icons/user.svg'']
   \<and> {''user''} \<noteq> ({} :: string set)
   \<and> filterUsedSvgFiles [''/icons/home.svg'', ''/icons/user.svg''] {''user''} [] = [''/icons/user.svg'']"
proof -
  have e: "filterUsedSvgFiles [''/icons/home.svg'', ''/icons/user.svg''] {} [] =
     [''/icons/home.svg'', ''/icons/user.svg'']"
    using filterUsedSvgFiles_correct [of "{}" "[''/icons/home.svg'', ''/icons/user.svg'']" "[]"]
    by simp
  have n: "{''user''} \<noteq> ({} :: string set)" by simp
  have "filterUsedSvgFiles [''/icons/home.svg'', ''/icons/user.svg''] {''user''} [] =
     [f \<leftarrow> [''/icons/home.svg'', ''/icons/user.svg'']. generateSymbolId f [] \<in> {''user''}]"
    using filterUsedSvgFiles_correct [of "{''user''}" "[''/icons/home.svg'', ''/icons/user.svg'']" "[]"] n
    by blast
  then have "filterUsedSvgFiles [''/icons/home.svg'', ''/icons/user.svg''] {''user''} [] = [''/icons/user.svg'']"
    by (simp add: generateSymbolId_icons_home generateSymbolId_icons_user)
  with e n show ?thesis by blast
qed

section \<open>Properties of the sprite assembler\<close>


lemma entity_no_dq: "CHR 0x22 \<notin> set (entity c)"
  by (simp add: entity_def)

lemma safeId_no_dq: "CHR 0x22 \<notin> set (safeId i)"
  by (induction i) (simp_all add: safeId_def entity_no_dq)

lemma entity_prefix_inj: "entity a @ xs = entity b @ ys \<Longrightarrow> a = b"
  by (auto simp: entity_def split: if_splits)

lemma safeId_inj: "safeId i = safeId j \<Longrightarrow> i = j"
proof (induction i arbitrary: j)
  case Nil
  then show ?case by (cases j) (auto simp: safeId_def entity_def split: if_splits)
next
  case (Cons a i)
  show ?case
  proof (cases j)
    case Nil
    with Cons.prems show ?thesis by (auto simp: safeId_def entity_def split: if_splits)
  next
    case (Cons b j')
    with Cons.prems have e: "entity a @ safeId i = entity b @ safeId j'"
      by (simp add: safeId_def)
    then have "a = b" by (rule entity_prefix_inj)
    with e have "safeId i = safeId j'" by simp
    with Cons.IH \<open>a = b\<close> Cons show ?thesis by simp
  qed
qed

lemma no_dq_prefix_eq:
  assumes "CHR 0x22 \<notin> set xs" "CHR 0x22 \<notin> set ys"
    and "take (Suc (length xs)) (ys @ CHR 0x22 # rest) = xs @ [CHR 0x22]"
  shows "xs = ys"
  using assms
proof (induction xs arbitrary: ys)
  case Nil
  then show ?case by (cases ys) auto
next
  case (Cons x xs)
  then show ?case by (cases ys) auto
qed

lemma symbolHasId_generateSymbol: "symbolHasId (generateSymbol j c v) i \<longleftrightarrow> i = j"
proof
  assume "symbolHasId (generateSymbol j c v) i"
  then have "take (Suc (length (safeId i))) (safeId j @ CHR 0x22 # ('' viewBox='' @ [CHR 0x22] @ v @ [CHR 0x22] @ ''>'' @ c @ ''</symbol>'')) = safeId i @ [CHR 0x22]"
    by (simp add: symbolHasId_def generateSymbol_def Let_def)
  then have "safeId i = safeId j"
    using no_dq_prefix_eq safeId_no_dq by blast
  then show "i = j" by (rule safeId_inj)
next
  assume "i = j"
  then show "symbolHasId (generateSymbol j c v) i"
    by (simp add: symbolHasId_def generateSymbol_def Let_def)
qed


lemma parsedWithId_Nil [simp]: "parsedWithId pre i [] = []"
  by (simp add: parsedWithId_def)

lemma parsedWithId_None [simp]: "parsedWithId pre i ((f, None) # xs) = parsedWithId pre i xs"
  by (simp add: parsedWithId_def)

lemma parsedWithId_Some [simp]:
  "parsedWithId pre i ((f, Some p) # xs) =
     (if generateSymbolId f pre = i then (f, p) # parsedWithId pre i xs else parsedWithId pre i xs)"
  by (simp add: parsedWithId_def)

lemma parsedWithId_append [simp]:
  "parsedWithId pre i (xs @ ys) = parsedWithId pre i xs @ parsedWithId pre i ys"
  by (simp add: parsedWithId_def)


lemma assembleLoop_symbols:
  "[s \<leftarrow> symbols (assembleLoop pre xs st). symbolHasId s i] =
     [s \<leftarrow> symbols st. symbolHasId s i] @
     (if i \<in> symbolIds st then []
      else map (\<lambda>(f, p). generateSymbol i (content p) (viewBox p)) (take 1 (parsedWithId pre i xs)))"
proof (induction pre xs st rule: assembleLoop.induct)
  case (1 prefix st)
  then show ?case by simp
next
  case (2 prefix filePath rest st)
  then show ?case by simp
next
  case (3 prefix filePath parsed rest st)
  then show ?case
    by (auto simp: Let_def symbolHasId_generateSymbol)
qed

lemma assembleLoop_duplicates:
  "[d \<leftarrow> duplicates (assembleLoop pre xs st). fst d = i] =
     [d \<leftarrow> duplicates st. fst d = i] @
     map (\<lambda>(f, p). (i, f))
       (if i \<in> symbolIds st then parsedWithId pre i xs else tl (parsedWithId pre i xs))"
proof (induction pre xs st rule: assembleLoop.induct)
  case (1 prefix st)
  then show ?case by simp
next
  case (2 prefix filePath rest st)
  then show ?case by simp
next
  case (3 prefix filePath parsed rest st)
  then show ?case
    by (auto simp: Let_def)
qed


lemma assemble_symbols_with_id:
  assumes "same = parsedWithId (idPrefix opts) ident (zip files parsedResults)" "same \<noteq> []"
  shows "[s \<leftarrow> symbols (assemble opts files parsedResults). symbolHasId s ident] =
           [generateSymbol ident (content (snd (hd same))) (viewBox (snd (hd same)))]"
proof -
  from assms(2) obtain f p rest where "same = (f, p) # rest"
    by (cases same) auto
  then show ?thesis
    using assembleLoop_symbols [where pre = "idPrefix opts" and xs = "zip files parsedResults"
        and st = emptyBuild and i = ident] assms(1)
    by (simp add: assemble_def emptyBuild_def)
qed

lemma assemble_duplicates_with_id:
  assumes "same = parsedWithId (idPrefix opts) ident (zip files parsedResults)"
  shows "[d \<leftarrow> duplicates (assemble opts files parsedResults). fst d = ident] =
           map (\<lambda>(f, p). (ident, f)) (tl same)"
  using assembleLoop_duplicates [where pre = "idPrefix opts" and xs = "zip files parsedResults"
      and st = emptyBuild and i = ident] assms
  by (simp add: assemble_def emptyBuild_def)

lemma startsWith_Nil [simp]: "startsWith s []"
  by (simp add: startsWith_def)

lemma startsWith_Nil_Cons [simp]: "\<not> startsWith [] (p # ps)"
  by (simp add: startsWith_def)

lemma startsWith_Cons [simp]: "startsWith (c # cs) (p # ps) \<longleftrightarrow> c = p \<and> startsWith cs ps"
  by (auto simp: startsWith_def)

lemma startsWith_append_pat: "startsWith s (p @ q) \<Longrightarrow> startsWith s p"
proof (induction p arbitrary: s)
  case Nil
  then show ?case by simp
next
  case (Cons a p)
  then show ?case by (cases s) auto
qed

lemma startsWith_straddle:
  "a \<noteq> [] \<Longrightarrow> startsWith (a @ b) p \<Longrightarrow> \<not> startsWith a p \<Longrightarrow> b \<noteq> [] \<and> hd b \<in> set (tl p)"
proof (induction a arbitrary: p)
  case Nil
  then show ?case by simp
next
  case (Cons c a)
  from Cons.prems(3) obtain q qs where p: "p = q # qs" by (cases p) auto
  with Cons.prems have s: "startsWith (a @ b) qs" "\<not> startsWith a qs" by auto
  show ?case
  proof (cases a)
    case Nil
    with s obtain r rs where "qs = r # rs" by (cases qs) auto
    with s Nil p show ?thesis by (cases b) auto
  next
    case (Cons d ds)
    with Cons.IH [of qs] s have "b \<noteq> [] \<and> hd b \<in> set (tl qs)" by simp
    then show ?thesis using p by (cases qs) auto
  qed
qed

lemma countOcc_no_lt:
  "CHR ''<'' \<notin> set a \<Longrightarrow> startsWith pat ''<'' \<Longrightarrow> countOcc pat (a @ b) = countOcc pat b"
proof (induction a)
  case Nil
  then show ?case by simp
next
  case (Cons c a)
  then obtain ps where "pat = CHR ''<'' # ps" by (cases pat) auto
  with Cons show ?case by (auto simp: countOcc.simps(2))
qed

lemma includesStr_startsWith: "\<not> includesStr (c # cs) sub \<Longrightarrow> \<not> startsWith (c # cs) sub \<and> \<not> includesStr cs sub"
  by (simp add: startsWith_def)

lemma countOcc_clean:
  assumes "noSymbolTag a" and "b = [] \<or> hd b \<notin> set ''symbol''" and "startsWith pat ''<symbol''"
    and "pat = ''<symbol'' @ q"
  shows "countOcc pat (a @ b) = countOcc pat b"
  using assms(1)
proof (induction a)
  case Nil
  then show ?case by simp
next
  case (Cons c a)
  then have n: "\<not> startsWith (c # a) ''<symbol''" and a: "noSymbolTag a"
    using includesStr_startsWith [of c a "''<symbol''"] by (simp_all add: noSymbolTag_def)
  have "\<not> startsWith ((c # a) @ b) pat"
  proof
    assume "startsWith ((c # a) @ b) pat"
    then have "startsWith ((c # a) @ b) ''<symbol''"
      unfolding assms(4) by (rule startsWith_append_pat)
    from startsWith_straddle [OF _ this n] have "b \<noteq> [] \<and> hd b \<in> set ''symbol''" by simp
    with assms(2) show False by simp
  qed
  with Cons.IH [OF a] show ?case by (simp add: countOcc.simps(2))
qed


lemma symbolOpening_symbol: "symbolOpening X = ''<symbol'' @ ('' id='' @ [CHR 0x22] @ safeId X @ [CHR 0x22])"
  by (simp add: symbolOpening_def)

lemma countOcc_opening_clean:
  assumes "noSymbolTag a" and "b = [] \<or> hd b \<notin> set ''symbol''"
  shows "countOcc (symbolOpening X) (a @ b) = countOcc (symbolOpening X) b"
  by (rule countOcc_clean [OF assms _ symbolOpening_symbol]) (simp add: symbolOpening_def)

lemma countOcc_opening_no_lt:
  "CHR ''<'' \<notin> set a \<Longrightarrow> countOcc (symbolOpening X) (a @ b) = countOcc (symbolOpening X) b"
  by (rule countOcc_no_lt) (simp_all add: symbolOpening_def)

lemma countOcc_opening_char:
  "c \<noteq> CHR ''<'' \<Longrightarrow> countOcc (symbolOpening X) (c # s) = countOcc (symbolOpening X) s"
  by (simp add: countOcc.simps(2) symbolOpening_def)

lemma countOcc_opening_lt:
  assumes "\<not> startsWith s ''symbol''"
  shows "countOcc (symbolOpening X) (CHR ''<'' # s) = countOcc (symbolOpening X) s"
proof -
  have "symbolOpening X = CHR ''<'' # (''symbol'' @ ('' id='' @ [CHR 0x22] @ safeId X @ [CHR 0x22]))"
    by (simp add: symbolOpening_def)
  moreover have "\<not> startsWith s (''symbol'' @ ('' id='' @ [CHR 0x22] @ safeId X @ [CHR 0x22]))"
    using assms startsWith_append_pat by blast
  ultimately show ?thesis by (simp add: countOcc.simps(2))
qed

lemma countOcc_opening_Nil: "countOcc (symbolOpening X) [] = 0"
  by simp

lemma entity_no_lt: "CHR ''<'' \<notin> set (entity c)"
  by (simp add: entity_def)

lemma safeId_no_lt: "CHR ''<'' \<notin> set (safeId i)"
  by (induction i) (simp_all add: safeId_def entity_no_lt)

lemma startsWith_no_dq:
  assumes "CHR 0x22 \<notin> set xs" "CHR 0x22 \<notin> set ys"
  shows "startsWith (ys @ CHR 0x22 # rest) (xs @ [CHR 0x22]) \<longleftrightarrow> xs = ys"
  using assms
proof (induction xs arbitrary: ys)
  case Nil
  then show ?case by (cases ys) auto
next
  case (Cons x xs)
  then show ?case by (cases ys) auto
qed

lemma startsWith_symbol_opening:
  "startsWith (generateSymbol i c v @ rest) (symbolOpening X) \<longleftrightarrow> i = X"
proof -
  have "startsWith (generateSymbol i c v @ rest) (symbolOpening X) \<longleftrightarrow>
        startsWith (safeId i @ CHR 0x22 # ('' viewBox='' @ [CHR 0x22] @ v @ [CHR 0x22] @ ''>'' @ c @ ''</symbol>'' @ rest))
          (safeId X @ [CHR 0x22])"
    by (simp add: generateSymbol_def symbolOpening_def)
  also have "\<dots> \<longleftrightarrow> safeId X = safeId i"
    by (rule startsWith_no_dq) (rule safeId_no_dq)+
  also have "\<dots> \<longleftrightarrow> i = X"
    using safeId_inj by auto
  finally show ?thesis .
qed

lemma symbolHasId_startsWith: "symbolHasId s X \<longleftrightarrow> startsWith s (symbolOpening X)"
  by (simp add: symbolHasId_def symbolOpening_def startsWith_def Let_def)

lemma countOcc_symbol:
  assumes "noSymbolTag c" "noSymbolTag v"
  shows "countOcc (symbolOpening X) (generateSymbol i c v @ rest) =
           (if i = X then 1 else 0) + countOcc (symbolOpening X) rest"
proof -
  let ?P = "symbolOpening X"
  have "countOcc ?P (generateSymbol i c v @ rest) =
          (if startsWith (generateSymbol i c v @ rest) ?P then 1 else 0) +
          countOcc ?P (''symbol id='' @ [CHR 0x22] @ safeId i @ [CHR 0x22] @ '' viewBox='' @ [CHR 0x22] @ v @ [CHR 0x22] @ ''>'' @ c @ ''</symbol>'' @ rest)"
    by (simp add: generateSymbol_def countOcc.simps(2))
  also have "countOcc ?P (''symbol id='' @ [CHR 0x22] @ safeId i @ [CHR 0x22] @ '' viewBox='' @ [CHR 0x22] @ v @ [CHR 0x22] @ ''>'' @ c @ ''</symbol>'' @ rest)
      = countOcc ?P (safeId i @ [CHR 0x22] @ '' viewBox='' @ [CHR 0x22] @ v @ [CHR 0x22] @ ''>'' @ c @ ''</symbol>'' @ rest)"
    by (simp add: countOcc_opening_char)
  also have "\<dots> = countOcc ?P ([CHR 0x22] @ '' viewBox='' @ [CHR 0x22] @ v @ [CHR 0x22] @ ''>'' @ c @ ''</symbol>'' @ rest)"
    by (rule countOcc_opening_no_lt) (rule safeId_no_lt)
  also have "\<dots> = countOcc ?P (v @ [CHR 0x22] @ ''>'' @ c @ ''</symbol>'' @ rest)"
    by (simp add: countOcc_opening_char)
  also have "\<dots> = countOcc ?P ([CHR 0x22] @ ''>'' @ c @ ''</symbol>'' @ rest)"
    by (rule countOcc_opening_clean [OF assms(2)]) simp
  also have "\<dots> = countOcc ?P (c @ ''</symbol>'' @ rest)"
    by (simp add: countOcc_opening_char)
  also have "\<dots> = countOcc ?P (''</symbol>'' @ rest)"
    by (rule countOcc_opening_clean [OF assms(1)]) simp
  also have "\<dots> = countOcc ?P rest"
    by (simp add: countOcc_opening_char countOcc_opening_lt)
  finally show ?thesis by (simp add: startsWith_symbol_opening)
qed

lemma countOcc_joined:
  assumes "\<forall>s \<in> set syms. \<exists>i c v. s = generateSymbol i c v \<and> noSymbolTag c \<and> noSymbolTag v"
  shows "countOcc (symbolOpening X) (joinWith ''\<newline>  '' syms @ rest) =
           length [s \<leftarrow> syms. symbolHasId s X] + countOcc (symbolOpening X) rest"
  using assms
proof (induction "''\<newline>  ''" syms rule: joinWith.induct)
  case 1
  then show ?case by simp
next
  case (2 x)
  then obtain i c v where "x = generateSymbol i c v" "noSymbolTag c" "noSymbolTag v" by auto
  then show ?case
    by (simp add: countOcc_symbol symbolHasId_generateSymbol)
next
  case (3 x y ys)
  then obtain i c v where x: "x = generateSymbol i c v" "noSymbolTag c" "noSymbolTag v" by auto
  from 3 have ih: "countOcc (symbolOpening X) (joinWith ''\<newline>  '' (y # ys) @ rest) =
           length [s \<leftarrow> y # ys. symbolHasId s X] + countOcc (symbolOpening X) rest"
    by simp
  have "countOcc (symbolOpening X) (joinWith ''\<newline>  '' (x # y # ys) @ rest) =
        (if i = X then 1 else 0) + countOcc (symbolOpening X) (''\<newline>  '' @ joinWith ''\<newline>  '' (y # ys) @ rest)"
    using x countOcc_symbol [of c v X i] by simp
  also have "countOcc (symbolOpening X) (''\<newline>  '' @ joinWith ''\<newline>  '' (y # ys) @ rest) =
      countOcc (symbolOpening X) (joinWith ''\<newline>  '' (y # ys) @ rest)"
    by (simp add: countOcc_opening_char del: joinWith.simps)
  finally show ?case using ih x by (simp add: symbolHasId_generateSymbol del: joinWith.simps)
qed

lemma countOcc_sprite_head:
  assumes "noSymbolTag (spriteId opts)" "noSymbolTag (spriteClass opts)"
  shows "countOcc (symbolOpening X)
           (''<svg id='' @ [CHR 0x22] @ spriteId opts @ [CHR 0x22] @ '' class='' @ [CHR 0x22] @ spriteClass opts @
            [CHR 0x22] @ '' style='' @ [CHR 0x22] @ ''display: none;'' @ [CHR 0x22] @ ''>'' @ html) =
         countOcc (symbolOpening X) html"
proof -
  let ?P = "symbolOpening X"
  have "countOcc ?P (''<svg id='' @ [CHR 0x22] @ spriteId opts @ [CHR 0x22] @ '' class='' @ [CHR 0x22] @ spriteClass opts @
          [CHR 0x22] @ '' style='' @ [CHR 0x22] @ ''display: none;'' @ [CHR 0x22] @ ''>'' @ html)
     = countOcc ?P (spriteId opts @ [CHR 0x22] @ '' class='' @ [CHR 0x22] @ spriteClass opts @
          [CHR 0x22] @ '' style='' @ [CHR 0x22] @ ''display: none;'' @ [CHR 0x22] @ ''>'' @ html)"
    by (simp add: countOcc_opening_char countOcc_opening_lt)
  also have "\<dots> = countOcc ?P ([CHR 0x22] @ '' class='' @ [CHR 0x22] @ spriteClass opts @
          [CHR 0x22] @ '' style='' @ [CHR 0x22] @ ''display: none;'' @ [CHR 0x22] @ ''>'' @ html)"
    by (rule countOcc_opening_clean [OF assms(1)]) simp
  also have "\<dots> = countOcc ?P (spriteClass opts @
          [CHR 0x22] @ '' style='' @ [CHR 0x22] @ ''display: none;'' @ [CHR 0x22] @ ''>'' @ html)"
    by (simp add: countOcc_opening_char)
  also have "\<dots> = countOcc ?P ([CHR 0x22] @ '' style='' @ [CHR 0x22] @ ''display: none;'' @ [CHR 0x22] @ ''>'' @ html)"
    by (rule countOcc_opening_clean [OF assms(2)]) simp
  also have "\<dots> = countOcc ?P html"
    by (simp add: countOcc_opening_char)
  finally show ?thesis .
qed

lemma countOcc_sprite:
  assumes "\<forall>s \<in> set syms. \<exists>i c v. s = generateSymbol i c v \<and> noSymbolTag c \<and> noSymbolTag v"
    and "noSymbolTag (spriteId opts)" "noSymbolTag (spriteClass opts)"
  shows "countOcc (symbolOpening X) (generateSprite syms opts) = length [s \<leftarrow> syms. symbolHasId s X]"
proof (cases syms)
  case Nil
  have "generateSprite [] opts =
      ''<svg id='' @ [CHR 0x22] @ spriteId opts @ [CHR 0x22] @ '' class='' @ [CHR 0x22] @ spriteClass opts @
            [CHR 0x22] @ '' style='' @ [CHR 0x22] @ ''display: none;'' @ [CHR 0x22] @ ''>'' @ ''</svg>''"
    by (simp add: generateSprite_def)
  then have "countOcc (symbolOpening X) (generateSprite [] opts) = countOcc (symbolOpening X) ''</svg>''"
    by (simp only: countOcc_sprite_head [OF assms(2,3)])
  also have "\<dots> = 0"
    by (simp add: countOcc_opening_char countOcc_opening_lt)
  finally show ?thesis using Nil by simp
next
  case (Cons a list)
  let ?P = "symbolOpening X"
  have "generateSprite syms opts =
      ''<svg id='' @ [CHR 0x22] @ spriteId opts @ [CHR 0x22] @ '' class='' @ [CHR 0x22] @ spriteClass opts @
            [CHR 0x22] @ '' style='' @ [CHR 0x22] @ ''display: none;'' @ [CHR 0x22] @ ''>'' @
            (''\<newline>  '' @ joinWith ''\<newline>  '' syms @ (''\<newline>'' @ ''</svg>''))"
    using Cons by (simp add: generateSprite_def del: joinWith.simps)
  then have "countOcc ?P (generateSprite syms opts) =
      countOcc ?P (''\<newline>  '' @ joinWith ''\<newline>  '' syms @ (''\<newline>'' @ ''</svg>''))"
    by (simp only: countOcc_sprite_head [OF assms(2,3)])
  also have "\<dots> = countOcc ?P (joinWith ''\<newline>  '' syms @ (''\<newline>'' @ ''</svg>''))"
    by (simp add: countOcc_opening_char del: joinWith.simps)
  also have "\<dots> = length [s \<leftarrow> syms. symbolHasId s X] + countOcc ?P (''\<newline>'' @ ''</svg>'')"
    by (rule countOcc_joined [OF assms(1)])
  also have "countOcc ?P (''\<newline>'' @ ''</svg>'') = 0"
    by (simp add: countOcc_opening_char countOcc_opening_lt)
  finally show ?thesis by simp
qed

lemma assembleLoop_clean:
  assumes "\<forall>s \<in> set (symbols st). \<exists>i c v. s = generateSymbol i c v \<and> noSymbolTag c \<and> noSymbolTag v"
    and "\<forall>f p. (f, Some p) \<in> set xs \<longrightarrow> noSymbolTag (content p) \<and> noSymbolTag (viewBox p)"
  shows "\<forall>s \<in> set (symbols (assembleLoop pre xs st)). \<exists>i c v. s = generateSymbol i c v \<and> noSymbolTag c \<and> noSymbolTag v"
  using assms
proof (induction xs arbitrary: st)
  case Nil
  then show ?case by simp
next
  case (Cons x xs)
  obtain filePath r where x: "x = (filePath, r)" by (cases x)
  from Cons.prems(2) have rest: "\<forall>f p. (f, Some p) \<in> set xs \<longrightarrow> noSymbolTag (content p) \<and> noSymbolTag (viewBox p)"
    by simp
  show ?case
  proof (cases r)
    case None
    with x Cons.IH [OF Cons.prems(1) rest] show ?thesis by simp
  next
    case (Some parsed)
    let ?id = "generateSymbolId filePath pre"
    show ?thesis
    proof (cases "?id \<in> symbolIds st")
      case True
      let ?st = "st\<lparr>duplicates := duplicates st @ [(?id, filePath)]\<rparr>"
      have "\<forall>s \<in> set (symbols ?st). \<exists>i c v. s = generateSymbol i c v \<and> noSymbolTag c \<and> noSymbolTag v"
        using Cons.prems(1) by simp
      from Cons.IH [OF this rest] x Some True show ?thesis by (simp add: Let_def)
    next
      case False
      let ?st = "st\<lparr>symbolIds := insert ?id (symbolIds st),
                 symbols := symbols st @ [generateSymbol ?id (content parsed) (viewBox parsed)]\<rparr>"
      from Cons.prems(2) x Some have "noSymbolTag (content parsed) \<and> noSymbolTag (viewBox parsed)" by simp
      then have "\<exists>i c v. generateSymbol ?id (content parsed) (viewBox parsed) =
          generateSymbol i c v \<and> noSymbolTag c \<and> noSymbolTag v"
        by blast
      with Cons.prems(1)
      have "\<forall>s \<in> set (symbols ?st). \<exists>i c v. s = generateSymbol i c v \<and> noSymbolTag c \<and> noSymbolTag v"
        by simp
      from Cons.IH [OF this rest] x Some False show ?thesis by (simp add: Let_def)
    qed
  qed
qed

lemma assemble_clean:
  assumes "\<forall>p. Some p \<in> set parsedResults \<longrightarrow> noSymbolTag (content p) \<and> noSymbolTag (viewBox p)"
  shows "\<forall>s \<in> set (symbols (assemble opts files parsedResults)). \<exists>i c v. s = generateSymbol i c v \<and> noSymbolTag c \<and> noSymbolTag v"
  unfolding assemble_def
proof (rule assembleLoop_clean)
  show "\<forall>s\<in>set (symbols emptyBuild). \<exists>i c v. s = generateSymbol i c v \<and> noSymbolTag c \<and> noSymbolTag v"
    by (simp add: emptyBuild_def)
  show "\<forall>f p. (f, Some p) \<in> set (zip files parsedResults) \<longrightarrow> noSymbolTag (content p) \<and> noSymbolTag (viewBox p)"
    using assms by (meson set_zip_rightD)
qed

lemma sprite_count:
  assumes "\<forall>p. Some p \<in> set parsedResults \<longrightarrow> noSymbolTag (content p) \<and> noSymbolTag (viewBox p)"
    and "noSymbolTag (spriteId opts)" "noSymbolTag (spriteClass opts)"
  shows "countOcc (symbolOpening X) (buildSpriteFromFiles opts files parsedResults) =
           length [s \<leftarrow> symbols (assemble opts files parsedResults). symbolHasId s X]"
  unfolding buildSpriteFromFiles_def
  by (rule countOcc_sprite [OF assemble_clean [OF assms(1)] assms(2,3)])

lemma includesStr_Nil: "includesStr s []"
  by (cases s) simp_all

lemma includesStr_here: "includesStr (s @ b) s"
  by (cases s) (simp_all add: includesStr_Nil)

lemma includesStr_mid: "includesStr (a @ s @ b) s"
  by (induction a) (simp_all add: includesStr_here)

lemma joinWith_mid: "s \<in> set syms \<Longrightarrow> \<exists>a b. joinWith sep syms = a @ s @ b"
proof (induction sep syms rule: joinWith.induct)
  case (1 sep)
  then show ?case by simp
next
  case (2 sep x)
  then have "joinWith sep [x] = [] @ s @ []" by simp
  then show ?case by blast
next
  case (3 sep x y ys)
  show ?case
  proof (cases "s = x")
    case True
    then have "joinWith sep (x # y # ys) = [] @ s @ (sep @ joinWith sep (y # ys))" by simp
    then show ?thesis by blast
  next
    case False
    with 3 obtain a b where "joinWith sep (y # ys) = a @ s @ b" by auto
    then have "joinWith sep (x # y # ys) = (x @ sep @ a) @ s @ b" by simp
    then show ?thesis by blast
  qed
qed

lemma sprite_includes_symbol:
  assumes "s \<in> set syms"
  shows "includesStr (generateSprite syms opts) s"
proof -
  from joinWith_mid [OF assms] obtain a b where j: "joinWith ''\<newline>  '' syms = a @ s @ b" by blast
  from assms have "length syms > 0" by auto
  then have "generateSprite syms opts =
     (''<svg id='' @ [CHR 0x22] @ spriteId opts @ [CHR 0x22] @ '' class='' @ [CHR 0x22] @ spriteClass opts @
          [CHR 0x22] @ '' style='' @ [CHR 0x22] @ ''display: none;'' @ [CHR 0x22] @ ''>'' @ ''\<newline>  '' @ a) @ s @ (b @ ''\<newline>'' @ ''</svg>'')"
    by (simp add: generateSprite_def Let_def j del: joinWith.simps)
  then show ?thesis by (simp only: includesStr_mid)
qed
text \<open>
  Claim C4, as the code has it: when the successfully parsed files with the derived
  identifier \<open>ident\<close> are \<open>same\<close> (in processing order, \<open>N = length same\<close>, \<open>N > 0\<close>),
  exactly one of the emitted symbols carries that identifier, the one generated from the
  first file of \<open>same\<close>, and the sprite contains it; the other \<open>N - 1\<close> files are the
  entries of the duplicates list for that identifier, in order, and emit no symbol. When
  no parsed content or view box and neither attribute of the sprite contains \<open><symbol\<close>,
  the opening tag of a symbol with that identifier occurs exactly once in the text of the
  sprite.
\<close>

theorem duplicate_identifier_first_wins:
  assumes "same = parsedWithId (idPrefix opts) ident (zip files parsedResults)"
    and "same \<noteq> []"
  shows "[s \<leftarrow> symbols (assemble opts files parsedResults). symbolHasId s ident] =
           [generateSymbol ident (content (snd (hd same))) (viewBox (snd (hd same)))]
       \<and> length [s \<leftarrow> symbols (assemble opts files parsedResults). symbolHasId s ident] = 1
       \<and> [d \<leftarrow> duplicates (assemble opts files parsedResults). fst d = ident] =
           map (\<lambda>(f, p). (ident, f)) (tl same)
       \<and> length [d \<leftarrow> duplicates (assemble opts files parsedResults). fst d = ident] =
           length same - 1
       \<and> includesStr (buildSpriteFromFiles opts files parsedResults)
           (generateSymbol ident (content (snd (hd same))) (viewBox (snd (hd same))))
       \<and> ((\<forall>p. Some p \<in> set parsedResults \<longrightarrow> noSymbolTag (content p) \<and> noSymbolTag (viewBox p))
            \<and> noSymbolTag (spriteId opts) \<and> noSymbolTag (spriteClass opts) \<longrightarrow>
          countOcc (symbolOpening ident) (buildSpriteFromFiles opts files parsedResults) = 1)"
proof -
  let ?first = "generateSymbol ident (content (snd (hd same))) (viewBox (snd (hd same)))"
  note s = assemble_symbols_with_id [OF assms]
  note d = assemble_duplicates_with_id [OF assms(1)]
  have "?first \<in> set [s \<leftarrow> symbols (assemble opts files parsedResults). symbolHasId s ident]"
    unfolding s by simp
  then have "?first \<in> set (symbols (assemble opts files parsedResults))"
    by simp
  then have i: "includesStr (buildSpriteFromFiles opts files parsedResults) ?first"
    unfolding buildSpriteFromFiles_def by (rule sprite_includes_symbol)
  have c: "countOcc (symbolOpening ident) (buildSpriteFromFiles opts files parsedResults) = 1"
    if "\<forall>p. Some p \<in> set parsedResults \<longrightarrow> noSymbolTag (content p) \<and> noSymbolTag (viewBox p)"
      and "noSymbolTag (spriteId opts)" and "noSymbolTag (spriteClass opts)"
    using sprite_count [OF that, of ident files] unfolding s by simp
  from i c show ?thesis
    unfolding s d by simp
qed

lemma lastSegment_dir_name:
  assumes "name \<noteq> []" "CHR ''/'' \<notin> set name"
  shows "lastSegment (dir @ ''/'' @ name) = name"
proof -
  from assms have l: "\<not> isSlash (last name)"
    by (metis isSlash_def last_in_set)
  have "rev (dir @ ''/'' @ name) = rev name @ CHR ''/'' # rev dir" by simp
  moreover from assms l have "dropWhile isSlash (rev name @ CHR ''/'' # rev dir) = rev name @ CHR ''/'' # rev dir"
    by (cases "rev name") (auto simp: last_rev [symmetric] simp del: last_rev)
  ultimately have s: "stripTrailingSlashes (dir @ ''/'' @ name) = dir @ ''/'' @ name"
    by (simp add: stripTrailingSlashes_def)
  from assms have "takeWhile (\<lambda>c. \<not> isSlash c) (rev name @ CHR ''/'' # rev dir) = rev name"
    by (subst takeWhile_append2) (auto simp: isSlash_def)
  with s show ?thesis by (simp add: lastSegment_def)
qed

lemma basename_dir_name:
  assumes "name \<noteq> []" "CHR ''/'' \<notin> set name"
  shows "basename (dir @ ''/'' @ name) ''.svg'' =
           (if 4 < length name \<and> endsWith name ''.svg'' then take (length name - 4) name else name)"
proof -
  have a: "dir @ ''/'' @ name \<noteq> ''.svg''"
  proof
    assume "dir @ ''/'' @ name = ''.svg''"
    then have "CHR ''/'' \<in> set ''.svg''" by (metis in_set_conv_decomp append_Cons append_Nil)
    then show False by simp
  qed
  show ?thesis
    using a lastSegment_dir_name [OF assms, of dir]
    by (auto simp: basename_def Let_def endsWith_def eval_nat_numeral simp del: append.simps)
qed

lemma generateSymbolId_dir_name:
  assumes "name \<noteq> []" "CHR ''/'' \<notin> set name"
  shows "generateSymbolId (dir1 @ ''/'' @ name) prefix = generateSymbolId (dir2 @ ''/'' @ name) prefix"
  by (simp only: generateSymbolId_def basename_dir_name [OF assms])


lemma generateSymbolId_a_home: "generateSymbolId ''/icons/a/home.svg'' [] = ''home''"
proof -
  have "basename ''/icons/a/home.svg'' ''.svg'' = ''home''"
    by (simp add: basename_def lastSegment_def stripTrailingSlashes_def endsWith_def isSlash_def)
  then show ?thesis by (simp add: generateSymbolId_def Let_def cleanName_home)
qed

lemma generateSymbolId_b_home: "generateSymbolId ''/icons/b/home.svg'' [] = ''home''"
proof -
  have "basename ''/icons/b/home.svg'' ''.svg'' = ''home''"
    by (simp add: basename_def lastSegment_def stripTrailingSlashes_def endsWith_def isSlash_def)
  then show ?thesis by (simp add: generateSymbolId_def Let_def cleanName_home)
qed

theorem duplicate_identifier_first_wins_witness:
  "parsedWithId [] ''home''
      (zip [''/icons/a/home.svg'', ''/icons/user.svg'', ''/icons/b/home.svg'']
           [Some \<lparr>viewBox = ''0 0 24 24'', content = ''<circle/>''\<rparr>,
            Some \<lparr>viewBox = ''0 0 16 16'', content = ''<path/>''\<rparr>,
            Some \<lparr>viewBox = ''0 0 32 32'', content = ''<rect/>''\<rparr>]) =
     [(''/icons/a/home.svg'', \<lparr>viewBox = ''0 0 24 24'', content = ''<circle/>''\<rparr>),
      (''/icons/b/home.svg'', \<lparr>viewBox = ''0 0 32 32'', content = ''<rect/>''\<rparr>)]
   \<and> [s \<leftarrow> symbols (assemble \<lparr>spriteId = ''sprite-id'', spriteClass = ''sprite-class'', idPrefix = [], svgoOptimize = False\<rparr>
            [''/icons/a/home.svg'', ''/icons/user.svg'', ''/icons/b/home.svg'']
            [Some \<lparr>viewBox = ''0 0 24 24'', content = ''<circle/>''\<rparr>,
             Some \<lparr>viewBox = ''0 0 16 16'', content = ''<path/>''\<rparr>,
             Some \<lparr>viewBox = ''0 0 32 32'', content = ''<rect/>''\<rparr>]). symbolHasId s ''home''] =
     [generateSymbol ''home'' ''<circle/>'' ''0 0 24 24'']
   \<and> [d \<leftarrow> duplicates (assemble \<lparr>spriteId = ''sprite-id'', spriteClass = ''sprite-class'', idPrefix = [], svgoOptimize = False\<rparr>
            [''/icons/a/home.svg'', ''/icons/user.svg'', ''/icons/b/home.svg'']
            [Some \<lparr>viewBox = ''0 0 24 24'', content = ''<circle/>''\<rparr>,
             Some \<lparr>viewBox = ''0 0 16 16'', content = ''<path/>''\<rparr>,
             Some \<lparr>viewBox = ''0 0 32 32'', content = ''<rect/>''\<rparr>]). fst d = ''home''] =
     [(''home'', ''/icons/b/home.svg'')]
   \<and> includesStr (buildSpriteFromFiles \<lparr>spriteId = ''sprite-id'', spriteClass = ''sprite-class'', idPrefix = [], svgoOptimize = False\<rparr>
            [''/icons/a/home.svg'', ''/icons/user.svg'', ''/icons/b/home.svg'']
            [Some \<lparr>viewBox = ''0 0 24 24'', content = ''<circle/>''\<rparr>,
             Some \<lparr>viewBox = ''0 0 16 16'', content = ''<path/>''\<rparr>,
             Some \<lparr>viewBox = ''0 0 32 32'', content = ''<rect/>''\<rparr>])
        (generateSymbol ''home'' ''<circle/>'' ''0 0 24 24'')
   \<and> noSymbolTag ''<circle/>'' \<and> noSymbolTag ''<path/>'' \<and> noSymbolTag ''<rect/>''
   \<and> noSymbolTag ''0 0 24 24'' \<and> noSymbolTag ''0 0 16 16'' \<and> noSymbolTag ''0 0 32 32''
   \<and> noSymbolTag ''sprite-id'' \<and> noSymbolTag ''sprite-class''
   \<and> countOcc (symbolOpening ''home'')
        (buildSpriteFromFiles \<lparr>spriteId = ''sprite-id'', spriteClass = ''sprite-class'', idPrefix = [], svgoOptimize = False\<rparr>
            [''/icons/a/home.svg'', ''/icons/user.svg'', ''/icons/b/home.svg'']
            [Some \<lparr>viewBox = ''0 0 24 24'', content = ''<circle/>''\<rparr>,
             Some \<lparr>viewBox = ''0 0 16 16'', content = ''<path/>''\<rparr>,
             Some \<lparr>viewBox = ''0 0 32 32'', content = ''<rect/>''\<rparr>]) = 1"
proof -
  let ?opts = "\<lparr>spriteId = ''sprite-id'', spriteClass = ''sprite-class'', idPrefix = [], svgoOptimize = False\<rparr>"
  let ?files = "[''/icons/a/home.svg'', ''/icons/user.svg'', ''/icons/b/home.svg'']"
  let ?parsed = "[Some \<lparr>viewBox = ''0 0 24 24'', content = ''<circle/>''\<rparr>,
            Some \<lparr>viewBox = ''0 0 16 16'', content = ''<path/>''\<rparr>,
            Some \<lparr>viewBox = ''0 0 32 32'', content = ''<rect/>''\<rparr>]"
  let ?same = "[(''/icons/a/home.svg'', \<lparr>viewBox = ''0 0 24 24'', content = ''<circle/>''\<rparr>),
      (''/icons/b/home.svg'', \<lparr>viewBox = ''0 0 32 32'', content = ''<rect/>''\<rparr>)]"
  have same: "?same = parsedWithId (idPrefix ?opts) ''home'' (zip ?files ?parsed)"
    by (simp add: generateSymbolId_a_home generateSymbolId_b_home generateSymbolId_icons_user)
  have ne: "?same \<noteq> []" by simp
  have n: "noSymbolTag ''<circle/>''" "noSymbolTag ''<path/>''" "noSymbolTag ''<rect/>''"
    "noSymbolTag ''0 0 24 24''" "noSymbolTag ''0 0 16 16''" "noSymbolTag ''0 0 32 32''"
    "noSymbolTag ''sprite-id''" "noSymbolTag ''sprite-class''"
    by (simp_all add: noSymbolTag_def)
  then have clean: "(\<forall>p. Some p \<in> set ?parsed \<longrightarrow> noSymbolTag (content p) \<and> noSymbolTag (viewBox p))
      \<and> noSymbolTag (spriteId ?opts) \<and> noSymbolTag (spriteClass ?opts)"
    by auto
  note t = duplicate_identifier_first_wins [OF same ne]
  from t have "[s \<leftarrow> symbols (assemble ?opts ?files ?parsed). symbolHasId s ''home''] =
     [generateSymbol ''home'' ''<circle/>'' ''0 0 24 24'']"
    by simp
  moreover from t have "[d \<leftarrow> duplicates (assemble ?opts ?files ?parsed). fst d = ''home''] =
     [(''home'', ''/icons/b/home.svg'')]"
    by simp
  moreover have "parsedWithId [] ''home'' (zip ?files ?parsed) = ?same"
    using same by simp
  moreover from t have "includesStr (buildSpriteFromFiles ?opts ?files ?parsed)
        (generateSymbol ''home'' ''<circle/>'' ''0 0 24 24'')"
    by simp
  moreover from t clean have "countOcc (symbolOpening ''home'') (buildSpriteFromFiles ?opts ?files ?parsed) = 1"
    by blast
  ultimately show ?thesis using n by blast
qed

lemma nested_symbol_file_parts:
  \<open>execFrom True svgContentPattern None ''<svg viewBox="0 0 24 24"><symbol id="home"><path/></symbol></svg>'' =
     Some [''<svg viewBox="0 0 24 24"><symbol id="home"><path/></symbol></svg>'',
           ''<symbol id="home"><path/></symbol>'']\<close>
  \<open>execFrom True viewBoxPattern None ''<svg viewBox="0 0 24 24"><symbol id="home"><path/></symbol></svg>'' =
     Some [''viewBox="0 0 24 24"'', ''0 0 24 24'']\<close>
  \<open>includesStr ''<svg viewBox="0 0 24 24"><symbol id="home"><path/></symbol></svg>'' ''<svg''\<close>
  \<open>trim ''<svg viewBox="0 0 24 24"><symbol id="home"><path/></symbol></svg>'' \<noteq> []\<close>
  \<open>sanitizeSVGContent ''<symbol id="home"><path/></symbol>'' = ''<symbol id="home"><path/></symbol>''\<close>
  \<open>trim ''<symbol id="home"><path/></symbol>'' = ''<symbol id="home"><path/></symbol>''\<close>
  by code_simp+

lemma circle_file_parts:
  \<open>execFrom True svgContentPattern None ''<svg viewBox="0 0 24 24"><circle/></svg>'' =
     Some [''<svg viewBox="0 0 24 24"><circle/></svg>'', ''<circle/>'']\<close>
  \<open>execFrom True viewBoxPattern None ''<svg viewBox="0 0 24 24"><circle/></svg>'' =
     Some [''viewBox="0 0 24 24"'', ''0 0 24 24'']\<close>
  \<open>includesStr ''<svg viewBox="0 0 24 24"><circle/></svg>'' ''<svg''\<close>
  \<open>trim ''<svg viewBox="0 0 24 24"><circle/></svg>'' \<noteq> []\<close>
  \<open>sanitizeSVGContent ''<circle/>'' = ''<circle/>''\<close>
  \<open>trim ''<circle/>'' = ''<circle/>''\<close>
  by code_simp+

lemma parse_nested_symbol_file:
  \<open>parseSVGCachedInternal defaultOpts None (\<lambda>k. nestedSymbolFiles) [] ''/icons/a.svg'' 0 =
     (Some \<lparr>viewBox = ''0 0 24 24'', content = ''<symbol id="home"><path/></symbol>''\<rparr>,
      [(''/icons/a.svg:1:0'', \<lparr>viewBox = ''0 0 24 24'', content = ''<symbol id="home"><path/></symbol>''\<rparr>)])\<close>
  by (subst parseSVGCachedInternal.simps)
     (simp add: parseTry_def Let_def defaultOpts_def nestedSymbolFiles_def MAX_FILE_SIZE_def MAX_CACHE_SIZE_def
        cacheKey_def cacheSet_def group1_def nested_symbol_file_parts)

lemma parse_circle_file:
  \<open>parseSVGCachedInternal defaultOpts None (\<lambda>k. nestedSymbolFiles)
      [(''/icons/a.svg:1:0'', \<lparr>viewBox = ''0 0 24 24'', content = ''<symbol id="home"><path/></symbol>''\<rparr>)]
      ''/icons/home.svg'' 0 =
     (Some \<lparr>viewBox = ''0 0 24 24'', content = ''<circle/>''\<rparr>,
      [(''/icons/a.svg:1:0'', \<lparr>viewBox = ''0 0 24 24'', content = ''<symbol id="home"><path/></symbol>''\<rparr>),
       (''/icons/home.svg:2:0'', \<lparr>viewBox = ''0 0 24 24'', content = ''<circle/>''\<rparr>)])\<close>
  by (subst parseSVGCachedInternal.simps)
     (simp add: parseTry_def Let_def defaultOpts_def nestedSymbolFiles_def MAX_FILE_SIZE_def MAX_CACHE_SIZE_def
        cacheKey_def cacheSet_def group1_def circle_file_parts)

lemma generateSymbolId_icons_a: "generateSymbolId ''/icons/a.svg'' [] = ''a''"
proof -
  have "basename ''/icons/a.svg'' ''.svg'' = ''a''"
    by (simp add: basename_def lastSegment_def stripTrailingSlashes_def endsWith_def isSlash_def)
  moreover have "cleanName ''a'' = ''a''"
    by (simp add: cleanName_eq trimDashes_def idChar_def isLower_def isDash_def)
  ultimately show ?thesis by (simp add: generateSymbolId_def Let_def)
qed

lemma nested_symbol_sprite:
  \<open>buildSpriteFromFiles defaultOpts [''/icons/a.svg'', ''/icons/home.svg'']
      [Some \<lparr>viewBox = ''0 0 24 24'', content = ''<symbol id="home"><path/></symbol>''\<rparr>,
       Some \<lparr>viewBox = ''0 0 24 24'', content = ''<circle/>''\<rparr>] =
     ''<svg id="sprite-id" class="sprite-class" style="display: none;">\<newline>  <symbol id="a" viewBox="0 0 24 24"><symbol id="home"><path/></symbol></symbol>\<newline>  <symbol id="home" viewBox="0 0 24 24"><circle/></symbol>\<newline></svg>''\<close>
  by (simp add: buildSpriteFromFiles_def assemble_def emptyBuild_def Let_def generateSymbolId_icons_a
        generateSymbolId_icons_home generateSprite_def generateSymbol_def safeId_def entity_def defaultOpts_def)

text \<open>
  Claim C4 as the specification words it fails: the markup of a file goes into the sprite
  as it is. The file \<open>a.svg\<close> holds a \<open>symbol\<close> element with the \<open>id\<close> \<open>home\<close>; with
  the file \<open>home.svg\<close> beside it, one parsed file has the identifier \<open>home\<close>, and the
  sprite has two symbols with it.
\<close>

theorem nested_symbol_repeats_identifier:
  \<open>fst (parseAll defaultOpts None (\<lambda>k. nestedSymbolFiles) [] [''/icons/a.svg'', ''/icons/home.svg'']) =
     [Some \<lparr>viewBox = ''0 0 24 24'', content = ''<symbol id="home"><path/></symbol>''\<rparr>,
      Some \<lparr>viewBox = ''0 0 24 24'', content = ''<circle/>''\<rparr>]
   \<and> length (parsedWithId (idPrefix defaultOpts) ''home''
        (zip [''/icons/a.svg'', ''/icons/home.svg'']
           (fst (parseAll defaultOpts None (\<lambda>k. nestedSymbolFiles) [] [''/icons/a.svg'', ''/icons/home.svg''])))) = 1
   \<and> fst (buildSpriteFromFilesInternal defaultOpts None (\<lambda>k. nestedSymbolFiles) [] [''/icons/a.svg'', ''/icons/home.svg'']) =
       ''<svg id="sprite-id" class="sprite-class" style="display: none;">\<newline>  <symbol id="a" viewBox="0 0 24 24"><symbol id="home"><path/></symbol></symbol>\<newline>  <symbol id="home" viewBox="0 0 24 24"><circle/></symbol>\<newline></svg>''
   \<and> countOcc (symbolOpening ''home'')
        (fst (buildSpriteFromFilesInternal defaultOpts None (\<lambda>k. nestedSymbolFiles) [] [''/icons/a.svg'', ''/icons/home.svg''])) = 2\<close>
proof -
  have p: \<open>parseAll defaultOpts None (\<lambda>k. nestedSymbolFiles) [] [''/icons/a.svg'', ''/icons/home.svg''] =
     ([Some \<lparr>viewBox = ''0 0 24 24'', content = ''<symbol id="home"><path/></symbol>''\<rparr>,
       Some \<lparr>viewBox = ''0 0 24 24'', content = ''<circle/>''\<rparr>],
      [(''/icons/a.svg:1:0'', \<lparr>viewBox = ''0 0 24 24'', content = ''<symbol id="home"><path/></symbol>''\<rparr>),
       (''/icons/home.svg:2:0'', \<lparr>viewBox = ''0 0 24 24'', content = ''<circle/>''\<rparr>)])\<close>
    by (simp add: parse_nested_symbol_file parse_circle_file)
  have c: \<open>countOcc (symbolOpening ''home'')
       ''<svg id="sprite-id" class="sprite-class" style="display: none;">\<newline>  <symbol id="a" viewBox="0 0 24 24"><symbol id="home"><path/></symbol></symbol>\<newline>  <symbol id="home" viewBox="0 0 24 24"><circle/></symbol>\<newline></svg>'' = 2\<close>
    by code_simp
  have i: "idPrefix defaultOpts = []" by (simp add: defaultOpts_def)
  show ?thesis
    unfolding buildSpriteFromFilesInternal_def p i
    by (simp add: nested_symbol_sprite c generateSymbolId_icons_a generateSymbolId_icons_home)
qed

lemma in_tl_parsedWithId:
  assumes "entries = xs @ (f1, Some p) # ys @ (f2, Some q) # zs"
    and "generateSymbolId f1 pre = ident" "generateSymbolId f2 pre = ident"
  shows "(f2, q) \<in> set (tl (parsedWithId pre ident entries))"
proof (cases "parsedWithId pre ident xs")
  case Nil
  with assms show ?thesis by simp
next
  case (Cons a as)
  with assms show ?thesis by simp
qed

text \<open>
  Claim C10, as the code has it: the identifier depends on the file name only, not on the
  directory: two paths \<open>dir1/name\<close> and \<open>dir2/name\<close> get the same identifier for every
  prefix. When both files are parsed successfully, the later one is recorded as a
  duplicate and exactly one emitted symbol carries the identifier; it is the symbol of
  the earlier file, and the sprite contains it, when no successfully parsed file before
  it has the same identifier. When no parsed content or view box and neither attribute of
  the sprite contains \<open><symbol\<close>, the opening tag of a symbol with that identifier
  occurs exactly once in the text of the sprite.
\<close>

theorem same_file_name_collides:
  assumes "name \<noteq> []" and "CHR ''/'' \<notin> set name"
    and "zip files parsedResults =
           xs @ (dir1 @ ''/'' @ name, Some p) # ys @ (dir2 @ ''/'' @ name, Some q) # zs"
    and "ident = generateSymbolId (dir1 @ ''/'' @ name) (idPrefix opts)"
  shows "generateSymbolId (dir1 @ ''/'' @ name) prefix = generateSymbolId (dir2 @ ''/'' @ name) prefix
       \<and> (ident, dir2 @ ''/'' @ name) \<in> set (duplicates (assemble opts files parsedResults))
       \<and> length [s \<leftarrow> symbols (assemble opts files parsedResults). symbolHasId s ident] = 1
       \<and> (parsedWithId (idPrefix opts) ident xs = [] \<longrightarrow>
            [s \<leftarrow> symbols (assemble opts files parsedResults). symbolHasId s ident] =
              [generateSymbol ident (content p) (viewBox p)])
       \<and> (parsedWithId (idPrefix opts) ident xs = [] \<longrightarrow>
            includesStr (buildSpriteFromFiles opts files parsedResults)
              (generateSymbol ident (content p) (viewBox p)))
       \<and> ((\<forall>r. Some r \<in> set parsedResults \<longrightarrow> noSymbolTag (content r) \<and> noSymbolTag (viewBox r))
            \<and> noSymbolTag (spriteId opts) \<and> noSymbolTag (spriteClass opts) \<longrightarrow>
          countOcc (symbolOpening ident) (buildSpriteFromFiles opts files parsedResults) = 1)"
proof -
  let ?f1 = "dir1 @ ''/'' @ name" and ?f2 = "dir2 @ ''/'' @ name"
  let ?same = "parsedWithId (idPrefix opts) ident (zip files parsedResults)"
  have eq: "generateSymbolId ?f1 pre = generateSymbolId ?f2 pre" for pre
    by (rule generateSymbolId_dir_name [OF assms(1,2)])
  have i1: "generateSymbolId ?f1 (idPrefix opts) = ident" using assms(4) by simp
  have i2: "generateSymbolId ?f2 (idPrefix opts) = ident" using assms(4) eq by simp
  have intl: "(?f2, q) \<in> set (tl ?same)"
    by (rule in_tl_parsedWithId [OF assms(3) i1 i2])
  then have ne: "?same \<noteq> []" by auto
  have "(ident, ?f2) \<in> set (map (\<lambda>(f, p). (ident, f)) (tl ?same))"
    using intl by force
  then have "(ident, ?f2) \<in> set [d \<leftarrow> duplicates (assemble opts files parsedResults). fst d = ident]"
    using assemble_duplicates_with_id [OF refl, where opts = opts and ident = ident
        and files = files and parsedResults = parsedResults] by simp
  then have dup: "(ident, ?f2) \<in> set (duplicates (assemble opts files parsedResults))"
    by simp
  note s = assemble_symbols_with_id [OF refl ne]
  have one: "length [s \<leftarrow> symbols (assemble opts files parsedResults). symbolHasId s ident] = 1"
    unfolding s by simp
  have first: "[s \<leftarrow> symbols (assemble opts files parsedResults). symbolHasId s ident] =
              [generateSymbol ident (content p) (viewBox p)]"
    if "parsedWithId (idPrefix opts) ident xs = []"
  proof -
    from that have "hd ?same = (?f1, p)"
      using assms(3) i1 by simp
    then show ?thesis
      unfolding s by simp
  qed
  have incl: "includesStr (buildSpriteFromFiles opts files parsedResults)
              (generateSymbol ident (content p) (viewBox p))"
    if "parsedWithId (idPrefix opts) ident xs = []"
  proof -
    have "generateSymbol ident (content p) (viewBox p) \<in>
        set [s \<leftarrow> symbols (assemble opts files parsedResults). symbolHasId s ident]"
      unfolding first [OF that] by simp
    then have "generateSymbol ident (content p) (viewBox p) \<in> set (symbols (assemble opts files parsedResults))"
      by simp
    then show ?thesis
      unfolding buildSpriteFromFiles_def by (rule sprite_includes_symbol)
  qed
  have cnt: "countOcc (symbolOpening ident) (buildSpriteFromFiles opts files parsedResults) = 1"
    if "\<forall>r. Some r \<in> set parsedResults \<longrightarrow> noSymbolTag (content r) \<and> noSymbolTag (viewBox r)"
      and "noSymbolTag (spriteId opts)" and "noSymbolTag (spriteClass opts)"
    using sprite_count [OF that, of ident files] one by simp
  from eq dup one first incl cnt show ?thesis by blast
qed


theorem same_file_name_collides_witness:
  "generateSymbolId ''/icons/a/home.svg'' ''icon'' = generateSymbolId ''/icons/b/home.svg'' ''icon''
   \<and> (''home'', ''/icons/b/home.svg'') \<in>
       set (duplicates (assemble \<lparr>spriteId = ''sprite-id'', spriteClass = ''sprite-class'', idPrefix = [], svgoOptimize = False\<rparr>
            [''/icons/a/home.svg'', ''/icons/user.svg'', ''/icons/b/home.svg'']
            [Some \<lparr>viewBox = ''0 0 24 24'', content = ''<circle/>''\<rparr>,
             Some \<lparr>viewBox = ''0 0 16 16'', content = ''<path/>''\<rparr>,
             Some \<lparr>viewBox = ''0 0 32 32'', content = ''<rect/>''\<rparr>]))
   \<and> [s \<leftarrow> symbols (assemble \<lparr>spriteId = ''sprite-id'', spriteClass = ''sprite-class'', idPrefix = [], svgoOptimize = False\<rparr>
            [''/icons/a/home.svg'', ''/icons/user.svg'', ''/icons/b/home.svg'']
            [Some \<lparr>viewBox = ''0 0 24 24'', content = ''<circle/>''\<rparr>,
             Some \<lparr>viewBox = ''0 0 16 16'', content = ''<path/>''\<rparr>,
             Some \<lparr>viewBox = ''0 0 32 32'', content = ''<rect/>''\<rparr>]). symbolHasId s ''home''] =
     [generateSymbol ''home'' ''<circle/>'' ''0 0 24 24'']
   \<and> includesStr (buildSpriteFromFiles \<lparr>spriteId = ''sprite-id'', spriteClass = ''sprite-class'', idPrefix = [], svgoOptimize = False\<rparr>
            [''/icons/a/home.svg'', ''/icons/user.svg'', ''/icons/b/home.svg'']
            [Some \<lparr>viewBox = ''0 0 24 24'', content = ''<circle/>''\<rparr>,
             Some \<lparr>viewBox = ''0 0 16 16'', content = ''<path/>''\<rparr>,
             Some \<lparr>viewBox = ''0 0 32 32'', content = ''<rect/>''\<rparr>])
        (generateSymbol ''home'' ''<circle/>'' ''0 0 24 24'')
   \<and> countOcc (symbolOpening ''home'')
        (buildSpriteFromFiles \<lparr>spriteId = ''sprite-id'', spriteClass = ''sprite-class'', idPrefix = [], svgoOptimize = False\<rparr>
            [''/icons/a/home.svg'', ''/icons/user.svg'', ''/icons/b/home.svg'']
            [Some \<lparr>viewBox = ''0 0 24 24'', content = ''<circle/>''\<rparr>,
             Some \<lparr>viewBox = ''0 0 16 16'', content = ''<path/>''\<rparr>,
             Some \<lparr>viewBox = ''0 0 32 32'', content = ''<rect/>''\<rparr>]) = 1"
proof -
  let ?opts = "\<lparr>spriteId = ''sprite-id'', spriteClass = ''sprite-class'', idPrefix = [], svgoOptimize = False\<rparr>"
  let ?files = "[''/icons/a/home.svg'', ''/icons/user.svg'', ''/icons/b/home.svg'']"
  let ?p = "\<lparr>viewBox = ''0 0 24 24'', content = ''<circle/>''\<rparr>"
  let ?u = "\<lparr>viewBox = ''0 0 16 16'', content = ''<path/>''\<rparr>"
  let ?q = "\<lparr>viewBox = ''0 0 32 32'', content = ''<rect/>''\<rparr>"
  have n: "''home.svg'' \<noteq> []" "CHR ''/'' \<notin> set ''home.svg''" by simp_all
  have z: "zip ?files [Some ?p, Some ?u, Some ?q] =
      [] @ (''/icons/a'' @ ''/'' @ ''home.svg'', Some ?p) #
        [(''/icons/user.svg'', Some ?u)] @ (''/icons/b'' @ ''/'' @ ''home.svg'', Some ?q) # []"
    by simp
  have i: "''home'' = generateSymbolId (''/icons/a'' @ ''/'' @ ''home.svg'') (idPrefix ?opts)"
    by (simp add: generateSymbolId_a_home)
  have clean: "(\<forall>r. Some r \<in> set [Some ?p, Some ?u, Some ?q] \<longrightarrow> noSymbolTag (content r) \<and> noSymbolTag (viewBox r))
      \<and> noSymbolTag (spriteId ?opts) \<and> noSymbolTag (spriteClass ?opts)"
    by (auto simp: noSymbolTag_def)
  note t = same_file_name_collides [OF n z i, of "''icon''"]
  from t clean have "countOcc (symbolOpening ''home'') (buildSpriteFromFiles ?opts ?files [Some ?p, Some ?u, Some ?q]) = 1"
    by blast
  with t show ?thesis by simp
qed

lemma unclosed_file_parts:
  "trim ''<svg><g/>'' \<noteq> []" "includesStr ''<svg><g/>'' ''<svg''"
  "execFrom True svgContentPattern None ''<svg><g/>'' = None"
  by code_simp+

lemma group_file_parts:
  "execFrom True svgContentPattern None ''<svg><g/></svg>'' = Some [''<svg><g/></svg>'', ''<g/>'']"
  "execFrom True viewBoxPattern None ''<svg><g/></svg>'' = None"
  "includesStr ''<svg><g/></svg>'' ''<svg''"
  "trim ''<svg><g/></svg>'' \<noteq> []"
  "sanitizeSVGContent ''<g/>'' = ''<g/>''"
  "trim ''<g/>'' = ''<g/>''"
  by code_simp+

lemma parse_unclosed_file:
  "parseSVGCachedInternal defaultOpts None (\<lambda>k. sameNameFiles) [] ''/icons/a/home.svg'' 0 = (None, [])"
  by (subst parseSVGCachedInternal.simps)
     (simp add: parseTry_def Let_def defaultOpts_def sameNameFiles_def MAX_FILE_SIZE_def cacheKey_def
        unclosed_file_parts)

lemma parse_group_file:
  "parseSVGCachedInternal defaultOpts None (\<lambda>k. sameNameFiles) [] ''/icons/b/home.svg'' 0 =
     (Some \<lparr>viewBox = ''0 0 24 24'', content = ''<g/>''\<rparr>,
      [(''/icons/b/home.svg:2:0'', \<lparr>viewBox = ''0 0 24 24'', content = ''<g/>''\<rparr>)])"
  by (subst parseSVGCachedInternal.simps)
     (simp add: parseTry_def Let_def defaultOpts_def sameNameFiles_def MAX_FILE_SIZE_def MAX_CACHE_SIZE_def
        cacheKey_def cacheSet_def group1_def group_file_parts)

lemma generateSymbolId_home_bang: "generateSymbolId ''/icons/home!.svg'' [] = ''home''"
proof -
  have "basename ''/icons/home!.svg'' ''.svg'' = ''home!''"
    by (simp add: basename_def lastSegment_def stripTrailingSlashes_def endsWith_def isSlash_def)
  moreover have "cleanName ''home!'' = ''home''"
    by (simp add: cleanName_eq trimDashes_def idChar_def isLower_def isUpper_def isDigit_def isDash_def)
  ultimately show ?thesis by (simp add: generateSymbolId_def Let_def)
qed

text \<open>
  Claim C10 as the specification words it fails: the first of two files with the same
  name does not always contribute the symbol. When \<open>a/home.svg\<close> cannot be parsed (it
  has no closing \<open>svg\<close> tag), the symbol is that of \<open>b/home.svg\<close> and nothing is
  recorded as a duplicate. When a file \<open>home!.svg\<close>, which gets the same identifier, is
  processed before them, both \<open>a/home.svg\<close> and \<open>b/home.svg\<close> are dropped as
  duplicates.
\<close>

theorem same_name_first_file_not_kept:
  "generateSymbolId ''/icons/a/home.svg'' [] = generateSymbolId ''/icons/b/home.svg'' []
   \<and> fst (parseAll defaultOpts None (\<lambda>k. sameNameFiles) [] [''/icons/a/home.svg'', ''/icons/b/home.svg'']) =
       [None, Some \<lparr>viewBox = ''0 0 24 24'', content = ''<g/>''\<rparr>]
   \<and> symbols (assemble defaultOpts [''/icons/a/home.svg'', ''/icons/b/home.svg'']
        (fst (parseAll defaultOpts None (\<lambda>k. sameNameFiles) [] [''/icons/a/home.svg'', ''/icons/b/home.svg'']))) =
       [generateSymbol ''home'' ''<g/>'' ''0 0 24 24'']
   \<and> duplicates (assemble defaultOpts [''/icons/a/home.svg'', ''/icons/b/home.svg'']
        (fst (parseAll defaultOpts None (\<lambda>k. sameNameFiles) [] [''/icons/a/home.svg'', ''/icons/b/home.svg'']))) = []
   \<and> symbols (assemble defaultOpts [''/icons/home!.svg'', ''/icons/a/home.svg'', ''/icons/b/home.svg'']
        [Some \<lparr>viewBox = ''0 0 8 8'', content = ''<path/>''\<rparr>,
         Some \<lparr>viewBox = ''0 0 24 24'', content = ''<circle/>''\<rparr>,
         Some \<lparr>viewBox = ''0 0 32 32'', content = ''<rect/>''\<rparr>]) =
       [generateSymbol ''home'' ''<path/>'' ''0 0 8 8'']
   \<and> duplicates (assemble defaultOpts [''/icons/home!.svg'', ''/icons/a/home.svg'', ''/icons/b/home.svg'']
        [Some \<lparr>viewBox = ''0 0 8 8'', content = ''<path/>''\<rparr>,
         Some \<lparr>viewBox = ''0 0 24 24'', content = ''<circle/>''\<rparr>,
         Some \<lparr>viewBox = ''0 0 32 32'', content = ''<rect/>''\<rparr>]) =
       [(''home'', ''/icons/a/home.svg''), (''home'', ''/icons/b/home.svg'')]"
proof -
  have p: "parseAll defaultOpts None (\<lambda>k. sameNameFiles) [] [''/icons/a/home.svg'', ''/icons/b/home.svg''] =
     ([None, Some \<lparr>viewBox = ''0 0 24 24'', content = ''<g/>''\<rparr>],
      [(''/icons/b/home.svg:2:0'', \<lparr>viewBox = ''0 0 24 24'', content = ''<g/>''\<rparr>)])"
    by (simp add: parse_unclosed_file parse_group_file)
  have i: "idPrefix defaultOpts = []" by (simp add: defaultOpts_def)
  show ?thesis
    unfolding p
    by (simp add: assemble_def emptyBuild_def Let_def i generateSymbolId_a_home generateSymbolId_b_home
          generateSymbolId_home_bang)
qed

section \<open>Properties of the sanitizer\<close>

lemma sanitize_nested_script:
  "sanitizeSVGContent ''<scr<script></script>ipt>alert(1)</script>'' = ''<script>alert(1)</script>''"
  by code_simp

lemma nested_script_file_parts:
  "execFrom True svgContentPattern None ''<svg><scr<script></script>ipt>alert(1)</script></svg>'' =
     Some [''<svg><scr<script></script>ipt>alert(1)</script></svg>'',
           ''<scr<script></script>ipt>alert(1)</script>'']"
  "execFrom True viewBoxPattern None ''<svg><scr<script></script>ipt>alert(1)</script></svg>'' = None"
  "includesStr ''<svg><scr<script></script>ipt>alert(1)</script></svg>'' ''<svg''"
  "trim ''<svg><scr<script></script>ipt>alert(1)</script></svg>'' \<noteq> []"
  "trim ''<script>alert(1)</script>'' = ''<script>alert(1)</script>''"
  by code_simp+

text \<open>
  Claim C2 fails on the code: the script pattern is applied in one pass, so removing an
  inner \<open><script></script>\<close> can join the text around it into a new script element.
  The sanitizer turns \<open><scr<script></script>ipt>alert(1)</script>\<close> into
  \<open><script>alert(1)</script>\<close>, and the parser stores that markup for an icon
  file with this content.
\<close>

theorem parser_stores_script_element:
  "sanitizeSVGContent ''<scr<script></script>ipt>alert(1)</script>'' = ''<script>alert(1)</script>''
   \<and> fst (parseSVGCachedInternal defaultOpts None
        (\<lambda>k. singleFile ''/icons/x.svg'' 57 ''1700000000000''
                ''<svg><scr<script></script>ipt>alert(1)</script></svg>'')
        [] ''/icons/x.svg'' 0) =
     Some \<lparr>viewBox = ''0 0 24 24'', content = ''<script>alert(1)</script>''\<rparr>"
  by (subst parseSVGCachedInternal.simps)
     (simp add: parseTry_def Let_def defaultOpts_def singleFile_def MAX_FILE_SIZE_def MAX_CACHE_SIZE_def cacheKey_def cacheSet_def group1_def
        nested_script_file_parts sanitize_nested_script)


text \<open>
  Claim C3 fails on the code, by the same defect: sanitizing
  \<open><scr<script></script>ipt>alert(1)</script>\<close> once leaves a script element, and
  sanitizing the result again removes it, so the second pass changes the result of the
  first.
\<close>

theorem sanitizer_not_idempotent:
  "sanitizeSVGContent ''<scr<script></script>ipt>alert(1)</script>'' = ''<script>alert(1)</script>''
   \<and> sanitizeSVGContent (sanitizeSVGContent ''<scr<script></script>ipt>alert(1)</script>'') = []
   \<and> sanitizeSVGContent (sanitizeSVGContent ''<scr<script></script>ipt>alert(1)</script>'') \<noteq>
       sanitizeSVGContent ''<scr<script></script>ipt>alert(1)</script>''"
proof -
  have "sanitizeSVGContent ''<script>alert(1)</script>'' = []"
    by code_simp
  then show ?thesis by (simp add: sanitize_nested_script)
qed

section \<open>Properties of the parser\<close>

lemma parse_error_null:
  "parseTry opts svgo (fs r) cache filePath r = Inl err \<Longrightarrow>
   parseSVGCachedInternal opts svgo fs cache filePath r = (None, cache)"
  by (subst parseSVGCachedInternal.simps) simp

lemma parse_retry:
  "parseTry opts svgo (fs r) cache filePath r = Inr RetryLater \<Longrightarrow>
   parseSVGCachedInternal opts svgo fs cache filePath r =
     parseSVGCachedInternal opts svgo fs cache filePath (Suc r)"
  by (subst parseSVGCachedInternal.simps) simp

lemma parseTry_too_large:
  "fs filePath = Some file \<Longrightarrow> sizeBytes (fstats file) > MAX_FILE_SIZE \<Longrightarrow>
   parseTry opts svgo fs cache filePath r = Inl FileTooLarge"
  by (simp add: parseTry_def)

lemma parseTry_stat_failed:
  "fs filePath = None \<Longrightarrow> parseTry opts svgo fs cache filePath r = Inl StatFailed"
  by (simp add: parseTry_def)

lemma parseTry_blank:
  "reachesContent opts fs cache filePath cont \<Longrightarrow> trim cont = [] \<Longrightarrow>
   parseTry opts svgo fs cache filePath r = (if r < 3 then Inr RetryLater else Inl FileEmpty)"
  by (auto simp: parseTry_def reachesContent_def Let_def split: option.splits)

lemma parseTry_no_svg_tag:
  "reachesContent opts fs cache filePath cont \<Longrightarrow> trim cont \<noteq> [] \<Longrightarrow>
   \<not> includesStr cont ''<svg'' \<Longrightarrow>
   parseTry opts svgo fs cache filePath r = Inl NoSvgTag"
  by (auto simp: parseTry_def reachesContent_def Let_def split: option.splits)

lemma parseTry_no_svg_content:
  "reachesContent opts fs cache filePath cont \<Longrightarrow> trim cont \<noteq> [] \<Longrightarrow>
   includesStr cont ''<svg'' \<Longrightarrow> execFrom True svgContentPattern None cont = None \<Longrightarrow>
   parseTry opts svgo fs cache filePath r = Inl NoSvgContent"
  by (auto simp: parseTry_def reachesContent_def Let_def split: option.splits)

lemma parse_blank_four_times:
  assumes "\<forall>k \<le> 3. \<exists>cont. reachesContent opts (fs k) cache filePath cont \<and> trim cont = []"
  shows "parseSVGCachedInternal opts svgo fs cache filePath 0 = (None, cache)"
proof -
  have t: "parseTry opts svgo (fs k) cache filePath k = (if k < 3 then Inr RetryLater else Inl FileEmpty)"
    if "k \<le> 3" for k
    using assms that parseTry_blank by blast
  have "parseSVGCachedInternal opts svgo fs cache filePath 0 =
        parseSVGCachedInternal opts svgo fs cache filePath (Suc 0)"
    using t [of 0] by (simp add: parse_retry)
  also have "\<dots> = parseSVGCachedInternal opts svgo fs cache filePath (Suc (Suc 0))"
    using t [of "Suc 0"] by (simp add: parse_retry)
  also have "\<dots> = parseSVGCachedInternal opts svgo fs cache filePath (Suc (Suc (Suc 0)))"
    using t [of "Suc (Suc 0)"] by (simp add: parse_retry)
  also have "\<dots> = (None, cache)"
    using t [of "Suc (Suc (Suc 0))"] by (simp add: parse_error_null eval_nat_numeral)
  finally show ?thesis .
qed

text \<open>
  Claim C6: the cached parser returns \<open>null\<close> (here \<open>None\<close>, with the cache unchanged)
  whenever a step of an attempt throws; in particular when \<open>stat\<close> fails, when the size
  is above 5 MB, when the content is blank at the first attempt and at each of the three
  retries (the last attempt then fails with the error "file is empty"), when the content
  has no \<open><svg\<close>, and when the markup between the \<open>svg\<close> tags cannot be extracted.
\<close>

theorem parser_failure_gives_null:
  "(parseTry opts svgo (fs r) cache filePath r = Inl err \<longrightarrow>
      parseSVGCachedInternal opts svgo fs cache filePath r = (None, cache))
   \<and> (fs r filePath = None \<longrightarrow>
      parseSVGCachedInternal opts svgo fs cache filePath r = (None, cache))
   \<and> ((\<exists>file. fs r filePath = Some file \<and> sizeBytes (fstats file) > MAX_FILE_SIZE) \<longrightarrow>
      parseSVGCachedInternal opts svgo fs cache filePath r = (None, cache))
   \<and> ((\<forall>k \<le> 3. \<exists>cont. reachesContent opts (fs k) cache filePath cont \<and> trim cont = []) \<longrightarrow>
      parseSVGCachedInternal opts svgo fs cache filePath 0 = (None, cache)
      \<and> parseTry opts svgo (fs 3) cache filePath 3 = Inl FileEmpty)
   \<and> (reachesContent opts (fs r) cache filePath cont \<and> trim cont \<noteq> [] \<and> \<not> includesStr cont ''<svg'' \<longrightarrow>
      parseSVGCachedInternal opts svgo fs cache filePath r = (None, cache))
   \<and> (reachesContent opts (fs r) cache filePath cont \<and> trim cont \<noteq> [] \<and> includesStr cont ''<svg''
        \<and> execFrom True svgContentPattern None cont = None \<longrightarrow>
      parseSVGCachedInternal opts svgo fs cache filePath r = (None, cache))"
proof -
  have a: "parseTry opts svgo (fs r) cache filePath r = Inl err \<longrightarrow>
      parseSVGCachedInternal opts svgo fs cache filePath r = (None, cache)"
    using parse_error_null by blast
  have b: "fs r filePath = None \<longrightarrow>
      parseSVGCachedInternal opts svgo fs cache filePath r = (None, cache)"
    using parse_error_null parseTry_stat_failed by blast
  have c: "(\<exists>file. fs r filePath = Some file \<and> sizeBytes (fstats file) > MAX_FILE_SIZE) \<longrightarrow>
      parseSVGCachedInternal opts svgo fs cache filePath r = (None, cache)"
    using parse_error_null parseTry_too_large by blast
  have d: "(\<forall>k \<le> 3. \<exists>cont. reachesContent opts (fs k) cache filePath cont \<and> trim cont = []) \<longrightarrow>
      parseSVGCachedInternal opts svgo fs cache filePath 0 = (None, cache)
      \<and> parseTry opts svgo (fs 3) cache filePath 3 = Inl FileEmpty"
  proof
    assume h: "\<forall>k \<le> 3. \<exists>cont. reachesContent opts (fs k) cache filePath cont \<and> trim cont = []"
    then obtain cont where "reachesContent opts (fs 3) cache filePath cont" "trim cont = []"
      by blast
    then have "parseTry opts svgo (fs 3) cache filePath 3 = Inl FileEmpty"
      using parseTry_blank [of opts "fs 3" cache filePath cont svgo 3] by simp
    with parse_blank_four_times [OF h]
    show "parseSVGCachedInternal opts svgo fs cache filePath 0 = (None, cache)
      \<and> parseTry opts svgo (fs 3) cache filePath 3 = Inl FileEmpty"
      by simp
  qed
  have e: "reachesContent opts (fs r) cache filePath cont \<and> trim cont \<noteq> [] \<and> \<not> includesStr cont ''<svg'' \<longrightarrow>
      parseSVGCachedInternal opts svgo fs cache filePath r = (None, cache)"
    using parse_error_null parseTry_no_svg_tag by blast
  have f: "reachesContent opts (fs r) cache filePath cont \<and> trim cont \<noteq> [] \<and> includesStr cont ''<svg''
        \<and> execFrom True svgContentPattern None cont = None \<longrightarrow>
      parseSVGCachedInternal opts svgo fs cache filePath r = (None, cache)"
    using parse_error_null parseTry_no_svg_content by blast
  from a b c d e f show ?thesis by blast
qed


lemma reachesContent_singleFile:
  "bytes \<le> MAX_FILE_SIZE \<Longrightarrow> reachesContent opts (singleFile path bytes mtime cont) [] path cont"
  by (simp add: reachesContent_def singleFile_def)

theorem parser_failure_gives_null_witness:
  "parseSVGCachedInternal defaultOpts None (\<lambda>k p. None) [] ''/icons/x.svg'' 0 = (None, [])
   \<and> parseTry defaultOpts None (singleFile ''/icons/x.svg'' 6000000 ''1'' ''<svg></svg>'') [] ''/icons/x.svg'' 0 =
       Inl FileTooLarge
   \<and> parseSVGCachedInternal defaultOpts None (\<lambda>k. singleFile ''/icons/x.svg'' 6000000 ''1'' ''<svg></svg>'')
       [] ''/icons/x.svg'' 0 = (None, [])
   \<and> parseSVGCachedInternal defaultOpts None (\<lambda>k. singleFile ''/icons/x.svg'' 2 ''1'' ''  '')
       [] ''/icons/x.svg'' 0 = (None, [])
   \<and> parseTry defaultOpts None (singleFile ''/icons/x.svg'' 2 ''1'' ''  '') [] ''/icons/x.svg'' 3 = Inl FileEmpty
   \<and> parseSVGCachedInternal defaultOpts None (\<lambda>k. singleFile ''/icons/x.svg'' 4 ''1'' ''<p/>'')
       [] ''/icons/x.svg'' 0 = (None, [])
   \<and> parseSVGCachedInternal defaultOpts None (\<lambda>k. singleFile ''/icons/x.svg'' 9 ''1'' ''<svg><g/>'')
       [] ''/icons/x.svg'' 0 = (None, [])"
proof -
  let ?p = "''/icons/x.svg''"
  have big: "singleFile ?p 6000000 ''1'' ''<svg></svg>'' ?p =
      Some \<lparr>fstats = \<lparr>sizeBytes = 6000000, mtimeMs = ''1''\<rparr>, fdata = Some ''<svg></svg>''\<rparr>
    \<and> sizeBytes (fstats \<lparr>fstats = \<lparr>sizeBytes = 6000000, mtimeMs = ''1''\<rparr>, fdata = Some ''<svg></svg>''\<rparr>)
        > MAX_FILE_SIZE"
    by (simp add: singleFile_def MAX_FILE_SIZE_def)
  have tl: "parseTry defaultOpts None (singleFile ?p 6000000 ''1'' ''<svg></svg>'') [] ?p 0 = Inl FileTooLarge"
    using big by (simp add: parseTry_def)
  have r2: "reachesContent defaultOpts (singleFile ?p 2 ''1'' ''  '') [] ?p ''  ''"
    by (rule reachesContent_singleFile) (simp add: MAX_FILE_SIZE_def)
  have r4: "reachesContent defaultOpts (singleFile ?p 4 ''1'' ''<p/>'') [] ?p ''<p/>''"
    by (rule reachesContent_singleFile) (simp add: MAX_FILE_SIZE_def)
  have r9: "reachesContent defaultOpts (singleFile ?p 9 ''1'' ''<svg><g/>'') [] ?p ''<svg><g/>''"
    by (rule reachesContent_singleFile) (simp add: MAX_FILE_SIZE_def)
  have blank: "trim ''  '' = []" by (simp add: trim_def isSpace_def)
  have p: "trim ''<p/>'' \<noteq> []" "\<not> includesStr ''<p/>'' ''<svg''"
    by (simp_all add: trim_def isSpace_def)
  have g: "trim ''<svg><g/>'' \<noteq> []" "includesStr ''<svg><g/>'' ''<svg''"
    "execFrom True svgContentPattern None ''<svg><g/>'' = None"
    by code_simp+
  have a: "parseSVGCachedInternal defaultOpts None (\<lambda>k p. None) [] ?p 0 = (None, [])"
    using parser_failure_gives_null [of defaultOpts None "\<lambda>k p. None" 0 "[]" ?p] by simp
  have b: "parseSVGCachedInternal defaultOpts None (\<lambda>k. singleFile ?p 6000000 ''1'' ''<svg></svg>'') [] ?p 0 = (None, [])"
    using parser_failure_gives_null [of defaultOpts None "\<lambda>k. singleFile ?p 6000000 ''1'' ''<svg></svg>''" 0 "[]" ?p
        FileTooLarge] tl
    by simp
  have c: "parseSVGCachedInternal defaultOpts None (\<lambda>k. singleFile ?p 2 ''1'' ''  '') [] ?p 0 = (None, [])
     \<and> parseTry defaultOpts None (singleFile ?p 2 ''1'' ''  '') [] ?p 3 = Inl FileEmpty"
    using parser_failure_gives_null [of defaultOpts None "\<lambda>k. singleFile ?p 2 ''1'' ''  ''" 0 "[]" ?p] r2 blank
    by blast
  have d: "parseSVGCachedInternal defaultOpts None (\<lambda>k. singleFile ?p 4 ''1'' ''<p/>'') [] ?p 0 = (None, [])"
    using parser_failure_gives_null [of defaultOpts None "\<lambda>k. singleFile ?p 4 ''1'' ''<p/>''" 0 "[]" ?p _ "''<p/>''"] r4 p
    by blast
  have e: "parseSVGCachedInternal defaultOpts None (\<lambda>k. singleFile ?p 9 ''1'' ''<svg><g/>'') [] ?p 0 = (None, [])"
    using parser_failure_gives_null [of defaultOpts None "\<lambda>k. singleFile ?p 9 ''1'' ''<svg><g/>''" 0 "[]" ?p _ "''<svg><g/>''"] r9 g
    by blast
  from a tl b c d e show ?thesis by blast
qed

section \<open>Properties of the change detector and the live update\<close>

text \<open>
  Claim C5 fails on the code: the hash is updated inside the callbacks of the concurrent
  \<open>stat\<close> calls, so the digest is computed over the \<open>path:mtime\<close> pairs in the order in
  which the calls settle, not in the order of the file list. For the files \<open>a.svg\<close> and
  \<open>b.svg\<close>, unchanged, the digest is taken over a different text when the second call
  settles first.
\<close>

theorem hash_fed_in_settle_order:
  "hashedData twoFiles [''/icons/a.svg'', ''/icons/b.svg''] [1, 0] = ''/icons/b.svg:2/icons/a.svg:1''
   \<and> hashedData twoFiles [''/icons/a.svg'', ''/icons/b.svg''] [0, 1] = ''/icons/a.svg:1/icons/b.svg:2''
   \<and> fst (generateHashFromMtime md5hex twoFiles [''/icons/a.svg'', ''/icons/b.svg''] c [1, 0]) =
       take 8 (md5hex ''/icons/b.svg:2/icons/a.svg:1'')
   \<and> fst (generateHashFromMtime md5hex twoFiles [''/icons/a.svg'', ''/icons/b.svg''] c [0, 1]) =
       take 8 (md5hex ''/icons/a.svg:1/icons/b.svg:2'')"
  by (simp add: hashedData_def generateHashFromMtime_def settledFiles_def twoFiles_def)

lemma hashUpdates_fst:
  "fst (hashUpdates fs files (hashed, c)) =
     hashed @ concat (map (\<lambda>f. case fs f of Some e \<Rightarrow> f @ '':'' @ mtimeMs (fstats e) | None \<Rightarrow> []) files)"
  by (induction files arbitrary: hashed c) (auto split: option.splits)

lemma settledFiles_in_order: "settledFiles files [0..<length files] = files"
  by (simp add: settledFiles_def map_nth)

lemma hash_in_order:
  "fst (generateHashFromMtime md5hex fs files c [0..<length files]) =
     take 8 (md5hex (concat (map (\<lambda>f. case fs f of Some e \<Rightarrow> f @ '':'' @ mtimeMs (fstats e) | None \<Rightarrow> []) files)))"
  using hashUpdates_fst [of fs files "[]" c]
  by (auto simp: generateHashFromMtime_def settledFiles_in_order split: prod.splits)

lemma settledFiles_subset: "set (settledFiles files order) \<subseteq> set files"
  by (auto simp: settledFiles_def)

lemma hash_of_mtimes:
  "fst (generateHashFromMtime md5hex fs files c order) =
     take 8 (md5hex (concat (map (\<lambda>f. case fs f of Some e \<Rightarrow> f @ '':'' @ mtimeMs (fstats e) | None \<Rightarrow> [])
                               (settledFiles files order))))"
  using hashUpdates_fst [of fs "settledFiles files order" "[]" c]
  by (auto simp: generateHashFromMtime_def split: prod.splits)

lemma hash_unchanged:
  assumes "\<forall>f \<in> set newFiles. map_option (\<lambda>e. mtimeMs (fstats e)) (fsNow f) =
                               map_option (\<lambda>e. mtimeMs (fstats e)) (fsThen f)"
    and "settledFiles newFiles orderNow = settledFiles oldFiles orderThen"
  shows "fst (generateHashFromMtime md5hex fsNow newFiles cNow orderNow) =
         fst (generateHashFromMtime md5hex fsThen oldFiles cThen orderThen)"
proof -
  have "(case fsNow f of Some e \<Rightarrow> f @ '':'' @ mtimeMs (fstats e) | None \<Rightarrow> []) =
        (case fsThen f of Some e \<Rightarrow> f @ '':'' @ mtimeMs (fstats e) | None \<Rightarrow> [])"
    if "f \<in> set (settledFiles newFiles orderNow)" for f
  proof -
    from that settledFiles_subset have "f \<in> set newFiles" by blast
    with assms(1) have "map_option (\<lambda>e. mtimeMs (fstats e)) (fsNow f) =
                        map_option (\<lambda>e. mtimeMs (fstats e)) (fsThen f)" by blast
    then show ?thesis by (cases "fsNow f"; cases "fsThen f") auto
  qed
  then have m: "map (\<lambda>f. case fsNow f of Some e \<Rightarrow> f @ '':'' @ mtimeMs (fstats e) | None \<Rightarrow> []) (settledFiles newFiles orderNow) =
        map (\<lambda>f. case fsThen f of Some e \<Rightarrow> f @ '':'' @ mtimeMs (fstats e) | None \<Rightarrow> []) (settledFiles newFiles orderNow)"
    by simp
  show ?thesis
    unfolding hash_of_mtimes assms(2) [symmetric] m ..
qed

lemma regenerate_same_hash:
  assumes "newSvgFiles \<noteq> []"
    and "fst (generateHashFromMtime md5hex fsHash newSvgFiles (Some (parseCache st)) order) = lastHash st"
  shows "snd (regenerateSprite opts svgo md5hex newSvgFiles fsHash order fsParse st) = []
      \<and> spriteContent (fst (regenerateSprite opts svgo md5hex newSvgFiles fsHash order fsParse st)) = spriteContent st
      \<and> svgFiles (fst (regenerateSprite opts svgo md5hex newSvgFiles fsHash order fsParse st)) = svgFiles st
      \<and> lastHash (fst (regenerateSprite opts svgo md5hex newSvgFiles fsHash order fsParse st)) = lastHash st"
  using assms
  by (auto simp: regenerateSprite_def Let_def split: prod.splits option.splits)

text \<open>
  Claim C9, as the code has it: when at least one SVG file is discovered, the stored
  fingerprint is the one computed for the stored file list, no discovered file has another
  modification time than it had then, and the \<open>stat\<close> calls settle for the same
  files in the same order as then, the rebuild step sends no message and keeps the sprite,
  the file list and the fingerprint. More generally it does so whenever the recomputed
  fingerprint equals the stored one. When no SVG file is discovered, it always sends an
  update message with the empty sprite and the icon count 0.
\<close>

theorem no_update_when_files_unchanged:
  "(newSvgFiles \<noteq> []
      \<and> (\<forall>f \<in> set newSvgFiles. map_option (\<lambda>e. mtimeMs (fstats e)) (fsNow f) =
                                 map_option (\<lambda>e. mtimeMs (fstats e)) (fsThen f))
      \<and> lastHash st = fst (generateHashFromMtime md5hex fsThen (svgFiles st) cacheThen orderThen)
      \<and> settledFiles newSvgFiles orderNow = settledFiles (svgFiles st) orderThen \<longrightarrow>
        snd (regenerateSprite opts svgo md5hex newSvgFiles fsNow orderNow fsParse st) = []
      \<and> spriteContent (fst (regenerateSprite opts svgo md5hex newSvgFiles fsNow orderNow fsParse st)) = spriteContent st
      \<and> svgFiles (fst (regenerateSprite opts svgo md5hex newSvgFiles fsNow orderNow fsParse st)) = svgFiles st
      \<and> lastHash (fst (regenerateSprite opts svgo md5hex newSvgFiles fsNow orderNow fsParse st)) = lastHash st)
   \<and> (newSvgFiles \<noteq> []
      \<and> fst (generateHashFromMtime md5hex fsNow newSvgFiles (Some (parseCache st)) orderNow) = lastHash st \<longrightarrow>
        snd (regenerateSprite opts svgo md5hex newSvgFiles fsNow orderNow fsParse st) = []
      \<and> spriteContent (fst (regenerateSprite opts svgo md5hex newSvgFiles fsNow orderNow fsParse st)) = spriteContent st
      \<and> svgFiles (fst (regenerateSprite opts svgo md5hex newSvgFiles fsNow orderNow fsParse st)) = svgFiles st
      \<and> lastHash (fst (regenerateSprite opts svgo md5hex newSvgFiles fsNow orderNow fsParse st)) = lastHash st)
   \<and> (newSvgFiles = [] \<longrightarrow>
        snd (regenerateSprite opts svgo md5hex newSvgFiles fsNow orderNow fsParse st) =
          [SpriteUpdate (generateSprite [] opts) 0])"
proof -
  have a: "snd (regenerateSprite opts svgo md5hex newSvgFiles fsNow orderNow fsParse st) = []
      \<and> spriteContent (fst (regenerateSprite opts svgo md5hex newSvgFiles fsNow orderNow fsParse st)) = spriteContent st
      \<and> svgFiles (fst (regenerateSprite opts svgo md5hex newSvgFiles fsNow orderNow fsParse st)) = svgFiles st
      \<and> lastHash (fst (regenerateSprite opts svgo md5hex newSvgFiles fsNow orderNow fsParse st)) = lastHash st"
    if "newSvgFiles \<noteq> []"
      and "\<forall>f \<in> set newSvgFiles. map_option (\<lambda>e. mtimeMs (fstats e)) (fsNow f) =
                                 map_option (\<lambda>e. mtimeMs (fstats e)) (fsThen f)"
      and "lastHash st = fst (generateHashFromMtime md5hex fsThen (svgFiles st) cacheThen orderThen)"
      and "settledFiles newSvgFiles orderNow = settledFiles (svgFiles st) orderThen"
  proof (rule regenerate_same_hash [OF that(1)])
    show "fst (generateHashFromMtime md5hex fsNow newSvgFiles (Some (parseCache st)) orderNow) = lastHash st"
      unfolding that(3) by (rule hash_unchanged [OF that(2) that(4)])
  qed
  have b: "newSvgFiles = [] \<longrightarrow>
        snd (regenerateSprite opts svgo md5hex newSvgFiles fsNow orderNow fsParse st) =
          [SpriteUpdate (generateSprite [] opts) 0]"
    by (simp add: regenerateSprite_def)
  from a b regenerate_same_hash [of newSvgFiles md5hex fsNow st orderNow opts svgo fsParse]
  show ?thesis by blast
qed


theorem no_update_when_files_unchanged_witness:
  "[''/icons/a.svg'', ''/icons/b.svg''] \<noteq> []
   \<and> map_option (\<lambda>e. mtimeMs (fstats e)) (twoFiles ''/icons/a.svg'') = Some ''1''
   \<and> map_option (\<lambda>e. mtimeMs (fstats e)) (twoFiles ''/icons/b.svg'') = Some ''2''
   \<and> fst (generateHashFromMtime (\<lambda>s. s) twoFiles [''/icons/a.svg'', ''/icons/b.svg''] (Some []) [0, 1]) = ''/icons/a''
   \<and> settledFiles [''/icons/a.svg'', ''/icons/b.svg''] [0, 1] = [''/icons/a.svg'', ''/icons/b.svg'']
   \<and> snd (regenerateSprite defaultOpts None (\<lambda>s. s) [''/icons/a.svg'', ''/icons/b.svg''] twoFiles [0, 1] (\<lambda>k. twoFiles)
           \<lparr>parseCache = [], svgFiles = [''/icons/a.svg'', ''/icons/b.svg''], spriteContent = ''<svg></svg>'',
            lastHash = ''/icons/a''\<rparr>) = []
   \<and> snd (regenerateSprite defaultOpts None (\<lambda>s. s) [] twoFiles [] (\<lambda>k. twoFiles)
           \<lparr>parseCache = [], svgFiles = [''/icons/a.svg'', ''/icons/b.svg''], spriteContent = ''<svg></svg>'',
            lastHash = ''/icons/a''\<rparr>) =
       [SpriteUpdate (generateSprite [] defaultOpts) 0]"
proof -
  let ?files = "[''/icons/a.svg'', ''/icons/b.svg'']"
  let ?st = "\<lparr>parseCache = [], svgFiles = ?files, spriteContent = ''<svg></svg>'', lastHash = ''/icons/a''\<rparr>"
  have h: "fst (generateHashFromMtime (\<lambda>s. s) twoFiles ?files (Some []) [0, 1]) = ''/icons/a''"
    by (simp add: generateHashFromMtime_def settledFiles_def twoFiles_def)
  have s: "settledFiles ?files [0, 1] = ?files"
    by (simp add: settledFiles_def)
  have n: "?files \<noteq> []" by simp
  have m: "map_option (\<lambda>e. mtimeMs (fstats e)) (twoFiles ''/icons/a.svg'') = Some ''1''"
    "map_option (\<lambda>e. mtimeMs (fstats e)) (twoFiles ''/icons/b.svg'') = Some ''2''"
    by (simp_all add: twoFiles_def)
  have pre: "?files \<noteq> []
      \<and> (\<forall>f \<in> set ?files. map_option (\<lambda>e. mtimeMs (fstats e)) (twoFiles f) =
                            map_option (\<lambda>e. mtimeMs (fstats e)) (twoFiles f))
      \<and> lastHash ?st = fst (generateHashFromMtime (\<lambda>s. s) twoFiles (svgFiles ?st) (Some []) [0, 1])
      \<and> settledFiles ?files [0, 1] = settledFiles (svgFiles ?st) [0, 1]"
    using h by simp
  from no_update_when_files_unchanged
        [where newSvgFiles = ?files and md5hex = "\<lambda>s. s" and fsNow = twoFiles and fsThen = twoFiles
           and st = ?st and orderNow = "[0, 1]" and orderThen = "[0, 1]" and cacheThen = "Some []"
           and opts = defaultOpts and svgo = None and fsParse = "\<lambda>k. twoFiles"] pre
  have a: "snd (regenerateSprite defaultOpts None (\<lambda>s. s) ?files twoFiles [0, 1] (\<lambda>k. twoFiles) ?st) = []"
    by blast
  from no_update_when_files_unchanged
        [where newSvgFiles = "[]" and md5hex = "\<lambda>s. s" and fsNow = twoFiles and st = ?st and orderNow = "[]"
           and opts = defaultOpts and svgo = None and fsParse = "\<lambda>k. twoFiles"]
  have b: "snd (regenerateSprite defaultOpts None (\<lambda>s. s) [] twoFiles [] (\<lambda>k. twoFiles) ?st) =
       [SpriteUpdate (generateSprite [] defaultOpts) 0]"
    by simp
  from n m h s a b show ?thesis by blast
qed

text \<open>
  Claim C9 as the specification words it fails where no SVG file is discovered: with an
  empty icon set before and after the event (nothing changed), the step still sends an
  update message.
\<close>

theorem update_sent_for_empty_icon_set:
  "snd (regenerateSprite defaultOpts None (\<lambda>s. s) [] (\<lambda>p. None) [] (\<lambda>k p. None)
         \<lparr>parseCache = [], svgFiles = [], spriteContent = generateSprite [] defaultOpts, lastHash = []\<rparr>) =
     [SpriteUpdate ''<svg id=\"sprite-id\" class=\"sprite-class\" style=\"display: none;\"></svg>'' 0]"
  by (simp add: regenerateSprite_def generateSprite_def defaultOpts_def)

lemma generateSymbolId_icons_b: "generateSymbolId ''/icons/b.svg'' [] = ''b''"
proof -
  have "basename ''/icons/b.svg'' ''.svg'' = ''b''"
    by (simp add: basename_def lastSegment_def stripTrailingSlashes_def endsWith_def isSlash_def)
  moreover have "cleanName ''b'' = ''b''"
    by (simp add: cleanName_eq trimDashes_def idChar_def isLower_def isDash_def)
  ultimately show ?thesis by (simp add: generateSymbolId_def Let_def)
qed

lemma parse_twoFiles_a:
  "parseSVGCachedInternal defaultOpts None (\<lambda>k. twoFiles) [] ''/icons/a.svg'' 0 =
     (Some \<lparr>viewBox = ''0 0 24 24'', content = ''<g/>''\<rparr>,
      [(''/icons/a.svg:1:0'', \<lparr>viewBox = ''0 0 24 24'', content = ''<g/>''\<rparr>)])"
  by (subst parseSVGCachedInternal.simps)
     (simp add: parseTry_def Let_def defaultOpts_def twoFiles_def MAX_FILE_SIZE_def MAX_CACHE_SIZE_def
        cacheKey_def cacheSet_def group1_def group_file_parts)

lemma parse_twoFiles_b:
  "parseSVGCachedInternal defaultOpts None (\<lambda>k. twoFiles)
      [(''/icons/a.svg:1:0'', \<lparr>viewBox = ''0 0 24 24'', content = ''<g/>''\<rparr>)] ''/icons/b.svg'' 0 =
     (Some \<lparr>viewBox = ''0 0 24 24'', content = ''<g/>''\<rparr>,
      [(''/icons/a.svg:1:0'', \<lparr>viewBox = ''0 0 24 24'', content = ''<g/>''\<rparr>),
       (''/icons/b.svg:2:0'', \<lparr>viewBox = ''0 0 24 24'', content = ''<g/>''\<rparr>)])"
  by (subst parseSVGCachedInternal.simps)
     (simp add: parseTry_def Let_def defaultOpts_def twoFiles_def MAX_FILE_SIZE_def MAX_CACHE_SIZE_def
        cacheKey_def cacheSet_def group1_def group_file_parts)

lemma twoFiles_sprite:
  \<open>buildSpriteFromFilesInternal defaultOpts None (\<lambda>k. twoFiles) [] [''/icons/a.svg'', ''/icons/b.svg''] =
     (''<svg id="sprite-id" class="sprite-class" style="display: none;">\<newline>  <symbol id="a" viewBox="0 0 24 24"><g/></symbol>\<newline>  <symbol id="b" viewBox="0 0 24 24"><g/></symbol>\<newline></svg>'',
      [(''/icons/a.svg:1:0'', \<lparr>viewBox = ''0 0 24 24'', content = ''<g/>''\<rparr>),
       (''/icons/b.svg:2:0'', \<lparr>viewBox = ''0 0 24 24'', content = ''<g/>''\<rparr>)])\<close>
proof -
  have i: "idPrefix defaultOpts = []" "spriteId defaultOpts = ''sprite-id''" "spriteClass defaultOpts = ''sprite-class''"
    by (simp_all add: defaultOpts_def)
  show ?thesis
    by (simp add: buildSpriteFromFilesInternal_def parse_twoFiles_a parse_twoFiles_b
        buildSpriteFromFiles_def assemble_def emptyBuild_def Let_def generateSymbolId_icons_a generateSymbolId_icons_b
        generateSprite_def generateSymbol_def safeId_def entity_def i)
qed

lemma twoFiles_icon_count:
  \<open>getIconCount ''<svg id="sprite-id" class="sprite-class" style="display: none;">\<newline>  <symbol id="a" viewBox="0 0 24 24"><g/></symbol>\<newline>  <symbol id="b" viewBox="0 0 24 24"><g/></symbol>\<newline></svg>'' = 2\<close>
  by code_simp

text \<open>
  Where the \<open>stat\<close> calls settle in another order than when the stored fingerprint was
  computed, the defect of the change detector shows in the rebuild step: for the
  unchanged files \<open>a.svg\<close> and \<open>b.svg\<close> it sends an update message.
\<close>

lemma update_sent_when_settle_order_differs:
  \<open>fst (generateHashFromMtime (\<lambda>s. s) twoFiles [''/icons/a.svg'', ''/icons/b.svg''] (Some []) [0, 1]) = ''/icons/a''
   \<and> snd (regenerateSprite defaultOpts None (\<lambda>s. s) [''/icons/a.svg'', ''/icons/b.svg''] twoFiles [1, 0] (\<lambda>k. twoFiles)
           \<lparr>parseCache = [], svgFiles = [''/icons/a.svg'', ''/icons/b.svg''], spriteContent = ''<svg></svg>'',
            lastHash = ''/icons/a''\<rparr>) =
       [SpriteUpdate ''<svg id="sprite-id" class="sprite-class" style="display: none;">\<newline>  <symbol id="a" viewBox="0 0 24 24"><g/></symbol>\<newline>  <symbol id="b" viewBox="0 0 24 24"><g/></symbol>\<newline></svg>'' 2]\<close>
proof -
  have h: "generateHashFromMtime (\<lambda>s. s) twoFiles [''/icons/a.svg'', ''/icons/b.svg''] (Some []) [Suc 0, 0] = (''/icons/b'', Some [])"
    by (simp add: generateHashFromMtime_def settledFiles_def twoFiles_def)
  have h0: "fst (generateHashFromMtime (\<lambda>s. s) twoFiles [''/icons/a.svg'', ''/icons/b.svg''] (Some []) [0, 1]) = ''/icons/a''"
    by (simp add: generateHashFromMtime_def settledFiles_def twoFiles_def)
  show ?thesis
    using h0 by (simp add: regenerateSprite_def h twoFiles_sprite twoFiles_icon_count del: getIconCount.simps)
qed

section \<open>Properties of the path validator\<close>

lemma splitSlash_nonempty: "splitSlash p \<noteq> []"
  by (induction p) (auto split: list.splits)

lemma splitSlash_no_slash: "w \<in> set (splitSlash p) \<Longrightarrow> CHR ''/'' \<notin> set w"
  by (induction p arbitrary: w) (auto split: list.splits if_splits)

lemma splitSlash_Cons_other:
  "c \<noteq> CHR ''/'' \<Longrightarrow> splitSlash (c # cs) = (c # hd (splitSlash cs)) # tl (splitSlash cs)"
  using splitSlash_nonempty [of cs] by (cases "splitSlash cs") auto

lemma splitSlash_append_slash: "splitSlash (p @ CHR ''/'' # q) = splitSlash p @ splitSlash q"
proof (induction p)
  case Nil
  then show ?case by simp
next
  case (Cons c p)
  show ?case
  proof (cases "c = CHR ''/''")
    case True
    with Cons show ?thesis by simp
  next
    case False
    have "splitSlash ((c # p) @ CHR ''/'' # q) =
          (c # hd (splitSlash p @ splitSlash q)) # tl (splitSlash p @ splitSlash q)"
      using False Cons splitSlash_Cons_other [of c "p @ CHR ''/'' # q"] by simp
    also have "\<dots> = ((c # hd (splitSlash p)) # tl (splitSlash p)) @ splitSlash q"
      using splitSlash_nonempty [of p] by (cases "splitSlash p") auto
    also have "\<dots> = splitSlash (c # p) @ splitSlash q"
      using False splitSlash_Cons_other [of c p] by simp
    finally show ?thesis .
  qed
qed

lemma splitSlash_single: "CHR ''/'' \<notin> set w \<Longrightarrow> splitSlash w = [w]"
  by (induction w) auto

lemma segments_no_slash: "w \<in> set (segments p) \<Longrightarrow> w \<noteq> [] \<and> CHR ''/'' \<notin> set w"
  using splitSlash_no_slash by (auto simp: segments_def)

lemma segments_append_slash: "segments (p @ CHR ''/'' # q) = segments p @ segments q"
  by (simp add: segments_def splitSlash_append_slash)

lemma segments_Nil: "segments [] = []"
  by (simp add: segments_def)

lemma segments_slash_Cons: "segments (CHR ''/'' # p) = segments p"
  by (simp add: segments_def)

lemma segments_single: "w \<noteq> [] \<Longrightarrow> CHR ''/'' \<notin> set w \<Longrightarrow> segments w = [w]"
  by (simp add: segments_def splitSlash_single)

lemma segments_joinWith:
  "\<forall>seg \<in> set segs. seg \<noteq> [] \<and> CHR ''/'' \<notin> set seg \<Longrightarrow> segments (joinWith ''/'' segs) = segs"
proof (induction "''/''" segs rule: joinWith.induct)
  case 1
  then show ?case by (simp add: segments_Nil)
next
  case (2 x)
  then show ?case by (simp add: segments_single)
next
  case (3 x y ys)
  then show ?case by (simp add: segments_append_slash segments_single)
qed

lemma normalizeSegs_filter:
  "normalizeSegs allow segs res = normalizeSegs allow (filter (\<lambda>seg. seg \<noteq> []) segs) res"
proof (induction segs arbitrary: res)
  case Nil
  then show ?case by simp
next
  case (Cons seg segs)
  show ?case
  proof (cases "seg = []")
    case True
    with Cons show ?thesis by simp
  next
    case False
    then have "filter (\<lambda>seg. seg \<noteq> []) (seg # segs) = seg # filter (\<lambda>seg. seg \<noteq> []) segs"
      by simp
    then show ?thesis
      by (simp add: Cons.IH [of res] Cons.IH [of "butlast res"] Cons.IH [of "res @ [''..'']"]
            Cons.IH [of "res @ [seg]"] split del: if_split cong del: if_weak_cong)
  qed
qed

lemma normalizeSegs_splitSlash:
  "normalizeSegs allow (splitSlash p) res = normalizeSegs allow (segments p) res"
  unfolding segments_def by (rule normalizeSegs_filter)

lemma cleanSegs_butlast: "cleanSegs res \<Longrightarrow> cleanSegs (butlast res)"
  by (auto simp: cleanSegs_def dest: in_set_butlastD)

lemma cleanSegs_snoc:
  "cleanSegs res \<Longrightarrow> seg \<noteq> [] \<Longrightarrow> CHR ''/'' \<notin> set seg \<Longrightarrow> seg \<noteq> ''.'' \<Longrightarrow> seg \<noteq> ''..'' \<Longrightarrow>
   cleanSegs (res @ [seg])"
  by (simp add: cleanSegs_def)

lemma normalizeSegs_clean:
  "cleanSegs res \<Longrightarrow> \<forall>seg \<in> set segs. CHR ''/'' \<notin> set seg \<Longrightarrow>
   cleanSegs (normalizeSegs False segs res)"
proof (induction segs arbitrary: res)
  case Nil
  then show ?case by simp
next
  case (Cons seg segs)
  from Cons.prems have ns: "\<forall>seg \<in> set segs. CHR ''/'' \<notin> set seg" and s: "CHR ''/'' \<notin> set seg"
    by simp_all
  consider (skip) "seg = [] \<or> seg = ''.''" | (up) "seg = ''..''" | (push) "seg \<noteq> []" "seg \<noteq> ''.''" "seg \<noteq> ''..''"
    by blast
  then show ?case
  proof cases
    case skip
    then have "normalizeSegs False (seg # segs) res = normalizeSegs False segs res" by auto
    with Cons.IH [OF Cons.prems(1) ns] show ?thesis by simp
  next
    case up
    then have "normalizeSegs False (seg # segs) res =
        (if res \<noteq> [] \<and> last res \<noteq> ''..'' then normalizeSegs False segs (butlast res)
         else normalizeSegs False segs res)"
      by simp
    with Cons.IH [OF Cons.prems(1) ns] Cons.IH [OF cleanSegs_butlast [OF Cons.prems(1)] ns]
    show ?thesis by simp
  next
    case push
    then have "normalizeSegs False (seg # segs) res = normalizeSegs False segs (res @ [seg])"
      by simp
    with Cons.IH [OF cleanSegs_snoc [OF Cons.prems(1) push(1) s push(2,3)] ns]
    show ?thesis by simp
  qed
qed

lemma normalizeSegs_of_clean: "cleanSegs segs \<Longrightarrow> normalizeSegs False segs res = res @ segs"
proof (induction segs arbitrary: res)
  case Nil
  then show ?case by simp
next
  case (Cons seg segs)
  then have "seg \<noteq> []" "seg \<noteq> ''.''" "seg \<noteq> ''..''" "cleanSegs segs"
    by (auto simp: cleanSegs_def)
  then have "normalizeSegs False (seg # segs) res = normalizeSegs False segs (res @ [seg])"
    by simp
  with Cons.IH [OF \<open>cleanSegs segs\<close>] show ?case by simp
qed


lemma cleanSegs_normalized:
  "\<forall>seg \<in> set segs. CHR ''/'' \<notin> set seg \<Longrightarrow> cleanSegs (normalizeSegs False segs [])"
  by (rule normalizeSegs_clean) (simp_all add: cleanSegs_def)

lemma normalizeString_abs:
  "normalizeString p False = joinWith ''/'' (normalizeSegs False (segments p) [])"
  by (simp add: normalizeString_def normalizeSegs_splitSlash)

text \<open>The segments a path is resolved from: its own when it is absolute, those of the
  working directory followed by its own otherwise.\<close>

lemma resolve_root:
  assumes "isAbsolute cwd"
  shows "resolve cwd [root] =
           CHR ''/'' # joinWith ''/''
             (normalizeSegs False (if isAbsolute root then segments root
                                   else segments cwd @ segments root) [])"
proof -
  consider (empty) "root = []" | (abs) "isAbsolute root" | (rel) "root \<noteq> []" "\<not> isAbsolute root"
    by blast
  then show ?thesis
  proof cases
    case empty
    with assms have "resolveArgs (rev [root] @ [cwd]) [] = (cwd @ ''/'', True)"
      by (simp add: isAbsolute_def)
    with empty show ?thesis
      by (simp add: resolve_def normalizeString_abs segments_append_slash segments_Nil isAbsolute_def)
  next
    case abs
    then have "resolveArgs (rev [root] @ [cwd]) [] = (root @ ''/'', True)"
      by (simp add: isAbsolute_def)
    with abs show ?thesis
      by (simp add: resolve_def normalizeString_abs segments_append_slash segments_Nil)
  next
    case rel
    with assms have "resolveArgs (rev [root] @ [cwd]) [] = (cwd @ ''/'' @ root @ ''/'', True)"
      by (simp add: isAbsolute_def)
    with rel show ?thesis
      by (simp add: resolve_def normalizeString_abs segments_append_slash segments_Nil)
  qed
qed

lemma resolve_root_user:
  assumes "isAbsolute cwd"
  shows "resolve cwd [root, user] =
           CHR ''/'' # joinWith ''/''
             (normalizeSegs False
                (if isAbsolute user then segments user
                 else (if isAbsolute root then segments root else segments cwd @ segments root)
                      @ segments user) [])"
proof -
  consider (abs) "isAbsolute user"
    | (empty) "user = []" "root = []"
    | (empty_abs) "user = []" "isAbsolute root"
    | (empty_rel) "user = []" "root \<noteq> []" "\<not> isAbsolute root"
    | (rel_empty) "user \<noteq> []" "\<not> isAbsolute user" "root = []"
    | (rel_abs) "user \<noteq> []" "\<not> isAbsolute user" "isAbsolute root"
    | (rel_rel) "user \<noteq> []" "\<not> isAbsolute user" "root \<noteq> []" "\<not> isAbsolute root"
    by blast
  then show ?thesis
  proof cases
    case abs
    then have "resolveArgs (rev [root, user] @ [cwd]) [] = (user @ ''/'', True)"
      by (simp add: isAbsolute_def)
    with abs show ?thesis
      by (simp add: resolve_def normalizeString_abs segments_append_slash segments_Nil)
  next
    case empty
    with assms have "resolveArgs (rev [root, user] @ [cwd]) [] = (cwd @ ''/'', True)"
      by (simp add: isAbsolute_def)
    with empty show ?thesis
      by (simp add: resolve_def normalizeString_abs segments_append_slash segments_Nil isAbsolute_def)
  next
    case empty_abs
    then have "resolveArgs (rev [root, user] @ [cwd]) [] = (root @ ''/'', True)"
      by (simp add: isAbsolute_def)
    with empty_abs show ?thesis
      by (simp add: resolve_def normalizeString_abs segments_append_slash segments_Nil isAbsolute_def)
  next
    case empty_rel
    with assms have "resolveArgs (rev [root, user] @ [cwd]) [] = (cwd @ ''/'' @ root @ ''/'', True)"
      by (simp add: isAbsolute_def)
    with empty_rel show ?thesis
      by (simp add: resolve_def normalizeString_abs segments_append_slash segments_Nil isAbsolute_def)
  next
    case rel_empty
    with assms have "resolveArgs (rev [root, user] @ [cwd]) [] = (cwd @ ''/'' @ user @ ''/'', True)"
      by (simp add: isAbsolute_def)
    with rel_empty show ?thesis
      by (simp add: resolve_def normalizeString_abs segments_append_slash segments_Nil isAbsolute_def)
  next
    case rel_abs
    then have "resolveArgs (rev [root, user] @ [cwd]) [] = (root @ ''/'' @ user @ ''/'', True)"
      by (simp add: isAbsolute_def)
    with rel_abs show ?thesis
      by (simp add: resolve_def normalizeString_abs segments_append_slash segments_Nil)
  next
    case rel_rel
    with assms have "resolveArgs (rev [root, user] @ [cwd]) [] =
        (cwd @ ''/'' @ root @ ''/'' @ user @ ''/'', True)"
      by (simp add: isAbsolute_def)
    with rel_rel show ?thesis
      by (simp add: resolve_def normalizeString_abs segments_append_slash segments_Nil)
  qed
qed

lemma segments_resolved:
  "cleanSegs segs \<Longrightarrow> segments (CHR ''/'' # joinWith ''/'' segs) = segs"
  by (simp add: segments_slash_Cons segments_joinWith cleanSegs_def)

lemma resolve_resolved:
  assumes "isAbsolute cwd" "cleanSegs segs"
  shows "resolve cwd [CHR ''/'' # joinWith ''/'' segs] = CHR ''/'' # joinWith ''/'' segs"
proof -
  have "isAbsolute (CHR ''/'' # joinWith ''/'' segs)" by (simp add: isAbsolute_def)
  with resolve_root [OF assms(1), of "CHR ''/'' # joinWith ''/'' segs"] assms(2) show ?thesis
    by (simp add: segments_resolved normalizeSegs_of_clean)
qed

lemma stripCommon_up:
  "stripCommon as bs = (up, down) \<Longrightarrow>
   (up = [] \<longleftrightarrow> take (length as) bs = as) \<and> (up = [] \<longrightarrow> down = drop (length as) bs)"
  by (induction as bs rule: stripCommon.induct) (auto split: if_splits)

lemma startsWith_join_up:
  "up \<noteq> [] \<Longrightarrow> startsWith (joinWith ''/'' (replicate (length up) ''..'' @ down)) ''..''"
proof -
  assume "up \<noteq> []"
  then obtain n where n: "length up = Suc n" by (cases up) auto
  show ?thesis
    unfolding n by (cases "replicate n ''..'' @ down") (simp_all add: startsWith_def)
qed

lemma startsWith_join_down:
  assumes "\<forall>seg \<in> set down. seg \<noteq> [] \<and> CHR ''/'' \<notin> set seg"
  shows "startsWith (joinWith ''/'' down) ''..'' \<longleftrightarrow> (down \<noteq> [] \<and> startsWith (hd down) ''..'')"
proof (cases down)
  case Nil
  then show ?thesis by (simp add: startsWith_def)
next
  case (Cons x rest)
  with assms have x: "x \<noteq> []" by simp
  show ?thesis
  proof (cases rest)
    case Nil
    with Cons show ?thesis by simp
  next
    case (Cons y ys)
    from x obtain c cs where xc: "x = c # cs" by (cases x) auto
    show ?thesis
    proof (cases cs)
      case Nil
      with xc \<open>down = x # rest\<close> Cons show ?thesis by (simp add: startsWith_def)
    next
      case (Cons d ds)
      with xc \<open>down = x # rest\<close> \<open>rest = y # ys\<close> show ?thesis by (simp add: startsWith_def)
    qed
  qed
qed

lemma not_isAbsolute_join:
  assumes "\<forall>seg \<in> set down. seg \<noteq> [] \<and> CHR ''/'' \<notin> set seg"
  shows "\<not> isAbsolute (joinWith ''/'' down)"
proof (cases down)
  case Nil
  then show ?thesis by (simp add: isAbsolute_def)
next
  case (Cons x rest)
  with assms obtain c cs where "x = c # cs" "c \<noteq> CHR ''/''" by (cases x) auto
  with Cons show ?thesis by (cases rest) (simp_all add: isAbsolute_def)
qed

lemma joinWith_Nil_iff:
  "\<forall>seg \<in> set segs. seg \<noteq> [] \<Longrightarrow> joinWith sep segs = [] \<longleftrightarrow> segs = []"
  by (induction sep segs rule: joinWith.induct) auto

lemma last_joinWith:
  "segs \<noteq> [] \<Longrightarrow> \<forall>seg \<in> set segs. seg \<noteq> [] \<Longrightarrow> last (joinWith sep segs) = last (last segs)"
  by (induction sep segs rule: joinWith.induct) (auto simp: joinWith_Nil_iff)

lemma normalizePath_resolved:
  assumes "cleanSegs segs"
  shows "normalizePath (CHR ''/'' # joinWith ''/'' segs) = CHR ''/'' # joinWith ''/'' segs"
proof -
  from assms have ne: "\<forall>seg \<in> set segs. seg \<noteq> []" and ns: "\<forall>seg \<in> set segs. CHR ''/'' \<notin> set seg"
    by (auto simp: cleanSegs_def)
  have n: "normalizeString (CHR ''/'' # joinWith ''/'' segs) False = joinWith ''/'' segs"
    using assms by (simp add: normalizeString_abs segments_resolved normalizeSegs_of_clean)
  show ?thesis
  proof (cases "segs = []")
    case True
    then show ?thesis by (simp add: normalizePath_def normalizeString_abs segments_def)
  next
    case False
    then have j: "joinWith ''/'' segs \<noteq> []" using ne joinWith_Nil_iff by blast
    have "last (last segs) \<noteq> CHR ''/''"
      using False ne ns by (metis last_in_set)
    then have "last (CHR ''/'' # joinWith ''/'' segs) \<noteq> CHR ''/''"
      using j last_joinWith [OF False ne] by simp
    with j n show ?thesis by (simp add: normalizePath_def Let_def)
  qed
qed


lemma relative_resolved:
  assumes "isAbsolute cwd"
    and "R = segments (resolve cwd [projectRoot])"
    and "T = segments (resolve cwd [projectRoot, userPath])"
  shows "cleanSegs R" and "cleanSegs T"
    and "resolve cwd [projectRoot, userPath] = CHR ''/'' # joinWith ''/'' T"
    and "relative cwd projectRoot (resolve cwd [projectRoot, userPath]) = [] \<and> R = T
         \<or> relative cwd projectRoot (resolve cwd [projectRoot, userPath]) =
             (case stripCommon R T of (up, down) \<Rightarrow> joinWith ''/'' (replicate (length up) ''..'' @ down))"
proof -
  let ?base = "if isAbsolute projectRoot then segments projectRoot
               else segments cwd @ segments projectRoot"
  let ?R' = "normalizeSegs False ?base []"
  let ?T' = "normalizeSegs False (if isAbsolute userPath then segments userPath
                                   else ?base @ segments userPath) []"
  have cR: "cleanSegs ?R'"
    by (rule cleanSegs_normalized) (auto dest: segments_no_slash)
  have cT: "cleanSegs ?T'"
    by (rule cleanSegs_normalized) (auto dest: segments_no_slash)
  have rR: "resolve cwd [projectRoot] = CHR ''/'' # joinWith ''/'' ?R'"
    by (rule resolve_root [OF assms(1)])
  have rT: "resolve cwd [projectRoot, userPath] = CHR ''/'' # joinWith ''/'' ?T'"
    by (rule resolve_root_user [OF assms(1)])
  have R: "R = ?R'" using assms(2) rR cR by (simp add: segments_resolved)
  have T: "T = ?T'" using assms(3) rT cT by (simp only: segments_resolved)
  show "cleanSegs R" using R cR by simp
  show "cleanSegs T" using T cT by simp
  show abs: "resolve cwd [projectRoot, userPath] = CHR ''/'' # joinWith ''/'' T"
    using rT T by simp
  have rto: "resolve cwd [resolve cwd [projectRoot, userPath]] = CHR ''/'' # joinWith ''/'' T"
    unfolding abs using resolve_resolved [OF assms(1)] T cT by simp
  have rfrom: "resolve cwd [projectRoot] = CHR ''/'' # joinWith ''/'' R"
    using rR R by simp
  show "relative cwd projectRoot (resolve cwd [projectRoot, userPath]) = [] \<and> R = T
         \<or> relative cwd projectRoot (resolve cwd [projectRoot, userPath]) =
             (case stripCommon R T of (up, down) \<Rightarrow> joinWith ''/'' (replicate (length up) ''..'' @ down))"
  proof (cases "projectRoot = resolve cwd [projectRoot, userPath]")
    case True
    then have "resolve cwd [projectRoot] = resolve cwd [resolve cwd [projectRoot, userPath]]"
      by simp
    with rto rfrom have "joinWith ''/'' R = joinWith ''/'' T" by simp
    then have "segments (joinWith ''/'' R) = segments (joinWith ''/'' T)" by simp
    then have "R = T"
      using \<open>cleanSegs R\<close> \<open>cleanSegs T\<close> by (simp add: segments_joinWith cleanSegs_def)
    moreover from True have "relative cwd projectRoot (resolve cwd [projectRoot, userPath]) = []"
      by (simp add: relative_def)
    ultimately show ?thesis by simp
  next
    case False
    show ?thesis
    proof (cases "R = T")
      case True
      with False rto rfrom show ?thesis by (simp add: relative_def Let_def)
    next
      case neq: False
      have "joinWith ''/'' R \<noteq> joinWith ''/'' T"
      proof
        assume "joinWith ''/'' R = joinWith ''/'' T"
        then have "segments (joinWith ''/'' R) = segments (joinWith ''/'' T)" by simp
        then have "R = T"
          using \<open>cleanSegs R\<close> \<open>cleanSegs T\<close> by (simp add: segments_joinWith cleanSegs_def)
        with neq show False by simp
      qed
      with False rto rfrom show ?thesis
        by (simp add: relative_def Let_def \<open>cleanSegs R\<close> \<open>cleanSegs T\<close> segments_resolved)
    qed
  qed
qed


lemma validate_outside:
  assumes "isAbsolute cwd" "userPath \<noteq> []" "\<not> insideRoot cwd projectRoot userPath"
  shows "validateIconsPath cwd userPath projectRoot =
           Inl (PathTraversal userPath (resolve cwd [projectRoot, userPath]) projectRoot)"
proof -
  define R where "R = segments (resolve cwd [projectRoot])"
  define T where "T = segments (resolve cwd [projectRoot, userPath])"
  note rr = relative_resolved [OF assms(1) R_def T_def]
  from assms(3) have np: "take (length R) T \<noteq> R"
    by (simp add: insideRoot_def Let_def R_def T_def)
  then have "R \<noteq> T" by auto
  with rr(4) have rel: "relative cwd projectRoot (resolve cwd [projectRoot, userPath]) =
      (case stripCommon R T of (up, down) \<Rightarrow> joinWith ''/'' (replicate (length up) ''..'' @ down))"
    by blast
  obtain up down where sc: "stripCommon R T = (up, down)" by (cases "stripCommon R T")
  with np have "up \<noteq> []" using stripCommon_up [OF sc] by simp
  then have "startsWith (relative cwd projectRoot (resolve cwd [projectRoot, userPath])) ''..''"
    using rel sc startsWith_join_up by simp
  with assms(2) show ?thesis by (simp add: validateIconsPath_def Let_def)
qed

lemma validate_inside:
  assumes "isAbsolute cwd" "userPath \<noteq> []" "insideRoot cwd projectRoot userPath"
    and "\<not> dotDotBelowRoot cwd projectRoot userPath"
  shows "validateIconsPath cwd userPath projectRoot = Inr (resolve cwd [projectRoot, userPath])"
    and "normalizePath (resolve cwd [projectRoot, userPath]) = resolve cwd [projectRoot, userPath]"
    and "isAbsolute (resolve cwd [projectRoot, userPath])"
proof -
  define R where "R = segments (resolve cwd [projectRoot])"
  define T where "T = segments (resolve cwd [projectRoot, userPath])"
  note rr = relative_resolved [OF assms(1) R_def T_def]
  let ?rel = "relative cwd projectRoot (resolve cwd [projectRoot, userPath])"
  from assms(3) have pre: "take (length R) T = R"
    by (simp add: insideRoot_def Let_def R_def T_def)
  from assms(4) have nd: "drop (length R) T = [] \<or> \<not> startsWith (hd (drop (length R) T)) ''..''"
    by (auto simp: dotDotBelowRoot_def Let_def R_def T_def split: list.splits)
  have down_ok: "\<forall>seg \<in> set (drop (length R) T). seg \<noteq> [] \<and> CHR ''/'' \<notin> set seg"
    using rr(2) by (auto simp: cleanSegs_def dest: in_set_dropD)
  have ok: "\<not> startsWith ?rel ''..'' \<and> \<not> isAbsolute ?rel"
  proof (cases "?rel = []")
    case True
    then show ?thesis by (simp add: startsWith_def isAbsolute_def)
  next
    case False
    with rr(4) have rel: "?rel =
      (case stripCommon R T of (up, down) \<Rightarrow> joinWith ''/'' (replicate (length up) ''..'' @ down))"
      by blast
    obtain up down where sc: "stripCommon R T = (up, down)" by (cases "stripCommon R T")
    from stripCommon_up [OF sc] pre have "up = []" "down = drop (length R) T" by simp_all
    with rel sc have "?rel = joinWith ''/'' (drop (length R) T)" by simp
    then show ?thesis
      using startsWith_join_down [OF down_ok] not_isAbsolute_join [OF down_ok] nd by auto
  qed
  show n: "normalizePath (resolve cwd [projectRoot, userPath]) = resolve cwd [projectRoot, userPath]"
    unfolding rr(3) by (rule normalizePath_resolved [OF rr(2)])
  show "validateIconsPath cwd userPath projectRoot = Inr (resolve cwd [projectRoot, userPath])"
    using assms(2) ok n by (simp add: validateIconsPath_def Let_def)
  show "isAbsolute (resolve cwd [projectRoot, userPath])"
    unfolding rr(3) by (simp add: isAbsolute_def)
qed

text \<open>
  Claim C1, as the code has it (the working directory of the process is an absolute
  path): an empty \<open>userPath\<close> is
  refused with an error of its own; a non-empty \<open>userPath\<close> whose resolution lies outside
  the root is refused with the path-traversal error; a non-empty \<open>userPath\<close> whose
  resolution lies inside the root, the first segment below the root not beginning with
  two dots, is answered with the resolved path, which is absolute and normalized.
\<close>

theorem validateIconsPath_keeps_inside_root:
  assumes "isAbsolute cwd"
  shows "(userPath = [] \<longrightarrow> validateIconsPath cwd userPath projectRoot = Inl EmptyPath)
       \<and> (userPath \<noteq> [] \<and> \<not> insideRoot cwd projectRoot userPath \<longrightarrow>
            validateIconsPath cwd userPath projectRoot =
              Inl (PathTraversal userPath (resolve cwd [projectRoot, userPath]) projectRoot))
       \<and> (userPath \<noteq> [] \<and> insideRoot cwd projectRoot userPath
            \<and> \<not> dotDotBelowRoot cwd projectRoot userPath \<longrightarrow>
            validateIconsPath cwd userPath projectRoot = Inr (resolve cwd [projectRoot, userPath])
            \<and> normalizePath (resolve cwd [projectRoot, userPath]) = resolve cwd [projectRoot, userPath]
            \<and> isAbsolute (resolve cwd [projectRoot, userPath]))"
proof -
  have a: "userPath = [] \<longrightarrow> validateIconsPath cwd userPath projectRoot = Inl EmptyPath"
    by (simp add: validateIconsPath_def)
  have b: "userPath \<noteq> [] \<and> \<not> insideRoot cwd projectRoot userPath \<longrightarrow>
            validateIconsPath cwd userPath projectRoot =
              Inl (PathTraversal userPath (resolve cwd [projectRoot, userPath]) projectRoot)"
    using validate_outside [OF assms] by blast
  have c: "userPath \<noteq> [] \<and> insideRoot cwd projectRoot userPath
            \<and> \<not> dotDotBelowRoot cwd projectRoot userPath \<longrightarrow>
            validateIconsPath cwd userPath projectRoot = Inr (resolve cwd [projectRoot, userPath])
            \<and> normalizePath (resolve cwd [projectRoot, userPath]) = resolve cwd [projectRoot, userPath]
            \<and> isAbsolute (resolve cwd [projectRoot, userPath])"
    using validate_inside [OF assms] by blast
  from a b c show ?thesis by blast
qed

lemma resolve_examples:
  "resolve ''/home/u'' [''/project''] = ''/project''"
  "resolve ''/home/u'' [''/project'', ''src/icons''] = ''/project/src/icons''"
  "resolve ''/home/u'' [''/project'', ''../../../etc''] = ''/etc''"
  "resolve ''/home/u'' [''/project'', ''/etc/passwd''] = ''/etc/passwd''"
  "resolve ''/home/u'' [''/project'', []] = ''/project''"
  by (simp_all add: resolve_def normalizeString_def)

lemma segments_examples:
  "segments ''/project'' = [''project'']"
  "segments ''/project/src/icons'' = [''project'', ''src'', ''icons'']"
  "segments ''/etc'' = [''etc'']"
  "segments ''/etc/passwd'' = [''etc'', ''passwd'']"
  by (simp_all add: segments_def)

theorem validateIconsPath_keeps_inside_root_witness:
  "isAbsolute ''/home/u''
   \<and> validateIconsPath ''/home/u'' [] ''/project'' = Inl EmptyPath
   \<and> \<not> insideRoot ''/home/u'' ''/project'' ''../../../etc''
   \<and> validateIconsPath ''/home/u'' ''../../../etc'' ''/project'' =
       Inl (PathTraversal ''../../../etc'' ''/etc'' ''/project'')
   \<and> \<not> insideRoot ''/home/u'' ''/project'' ''/etc/passwd''
   \<and> validateIconsPath ''/home/u'' ''/etc/passwd'' ''/project'' =
       Inl (PathTraversal ''/etc/passwd'' ''/etc/passwd'' ''/project'')
   \<and> insideRoot ''/home/u'' ''/project'' ''src/icons''
   \<and> \<not> dotDotBelowRoot ''/home/u'' ''/project'' ''src/icons''
   \<and> validateIconsPath ''/home/u'' ''src/icons'' ''/project'' = Inr ''/project/src/icons''"
proof -
  have r: "isAbsolute ''/home/u''" by (simp add: isAbsolute_def)
  have o1: "\<not> insideRoot ''/home/u'' ''/project'' ''../../../etc''"
    and o2: "\<not> insideRoot ''/home/u'' ''/project'' ''/etc/passwd''"
    and i1: "insideRoot ''/home/u'' ''/project'' ''src/icons''"
    and d1: "\<not> dotDotBelowRoot ''/home/u'' ''/project'' ''src/icons''"
    by (simp_all add: insideRoot_def dotDotBelowRoot_def resolve_examples segments_examples startsWith_def)
  note t = validateIconsPath_keeps_inside_root [OF r, where projectRoot = "''/project''"]
  have a: "validateIconsPath ''/home/u'' [] ''/project'' = Inl EmptyPath"
    using t [where userPath = "[]"] by simp
  have b: "validateIconsPath ''/home/u'' ''../../../etc'' ''/project'' =
       Inl (PathTraversal ''../../../etc'' ''/etc'' ''/project'')"
    using t [where userPath = "''../../../etc''"] o1 by (simp add: resolve_examples)
  have c: "validateIconsPath ''/home/u'' ''/etc/passwd'' ''/project'' =
       Inl (PathTraversal ''/etc/passwd'' ''/etc/passwd'' ''/project'')"
    using t [where userPath = "''/etc/passwd''"] o2 by (simp add: resolve_examples)
  have d: "validateIconsPath ''/home/u'' ''src/icons'' ''/project'' = Inr ''/project/src/icons''"
    using t [where userPath = "''src/icons''"] i1 d1 by (simp add: resolve_examples)
  from r a o1 b o2 c i1 d1 d show ?thesis by blast
qed

text \<open>
  Claim C1 as the specification words it fails for the empty path: it resolves to the
  project root itself, which lies inside the root, and the function throws.
\<close>

theorem validateIconsPath_rejects_empty_path:
  "insideRoot ''/home/u'' ''/project'' []
   \<and> resolve ''/home/u'' [''/project'', []] = ''/project''
   \<and> validateIconsPath ''/home/u'' [] ''/project'' = Inl EmptyPath"
  by (simp add: insideRoot_def resolve_examples validateIconsPath_def)

text \<open>
  The check \<open>relativePath.startsWith('..')\<close> looks at characters, not at segments: a
  directory inside the root whose name begins with two dots is refused as well.
\<close>

lemma validateIconsPath_refuses_dotdot_name:
  "insideRoot ''/home/u'' ''/project'' ''..icons''
   \<and> validateIconsPath ''/home/u'' ''..icons'' ''/project'' =
       Inl (PathTraversal ''..icons'' ''/project/..icons'' ''/project'')"
proof -
  have r: "resolve ''/home/u'' [''/project'', ''..icons''] = ''/project/..icons''"
    "resolve ''/home/u'' [''/project/..icons''] = ''/project/..icons''"
    by (simp_all add: resolve_def normalizeString_def)
  have s: "segments ''/project/..icons'' = [''project'', ''..icons'']"
    by (simp add: segments_def)
  have "relative ''/home/u'' ''/project'' ''/project/..icons'' = ''..icons''"
    by (simp add: relative_def resolve_examples segments_examples r s)
  then show ?thesis
    by (simp add: insideRoot_def validateIconsPath_def Let_def resolve_examples segments_examples r s
          startsWith_def)
qed

end
